theory Spec2Isabelle
  imports Complex_Main "HOL-Library.AList" "HOL-Library.Multiset"
begin

section \<open>Constants, topics and frames\<close>

text \<open>
  The module \<^verbatim>\<open>constants\<close> is not part of the sources. The four constants that
  \<^verbatim>\<open>websocket.py\<close> imports from it are parameters of the model; the two time spans are
  given in seconds, as \<^verbatim>\<open>total_seconds()\<close> returns them. Clock readings (\<^verbatim>\<open>time()\<close>)
  are real numbers.
\<close>

record constants =
  PING_INTERVAL :: real
  PING_TIMEOUT :: real
  MAX_WEBSOCKETS :: nat
  WS_TOPICS_LIMIT :: nat

text \<open>
  Modelled from the spec: the class \<^verbatim>\<open>WebsocketTopic\<close> (module \<^verbatim>\<open>constants\<close>) is missing.
  The spec describes a topic as "an opaque key (string-serializable)" with "Equality/hash by
  key", so a topic is its key and \<open>str\<close> reads it. The handler a topic carries is no part of
  its identity and of no connection state.
\<close>

datatype WebsocketTopic = WebsocketTopic (str: string)

text \<open>JSON values; a frame (\<^verbatim>\<open>JsonType\<close>) is a dict, kept as an association list.\<close>

datatype json = JStr string | JList "json list" | JDict "(string \<times> json) list"

type_synonym message = "(string \<times> json) list"

text \<open>
  The exceptions of the model. \<open>TransportError\<close> stands for whatever \<^verbatim>\<open>send_json\<close> raises
  when the socket does not take a frame; \<open>WebsocketClosed received\<close> is raised by the
  receive loop.
\<close>

datatype exn = MinerException | AssertionError | ZeroDivisionError | KeyError | TransportError
  | WebsocketClosed bool

text \<open>
  What a connection does to the outside: a frame written to the socket, and a call of
  \<^verbatim>\<open>request_reconnect\<close>.
\<close>

datatype action = Sent message | Reconnect_request

section \<open>The connection\<close>

text \<open>
  The fields of \<^verbatim>\<open>Websocket\<close>. \<open>ws\<close> says whether \<^verbatim>\<open>_ws\<close> holds a socket (the property
  \<^verbatim>\<open>connected\<close>), \<open>handle_task\<close> whether the lifecycle task exists and is not done, the
  three events are their flags. The dict \<^verbatim>\<open>topics\<close> is an association list in insertion
  order; the set \<^verbatim>\<open>_submitted\<close> is a list, whose order stands for the iteration order of
  the set.
\<close>

record Websocket =
  idx :: nat
  ws :: bool
  closed_event :: bool
  reconnect_requested :: bool
  topics_changed :: bool
  next_ping :: real
  max_pong :: real
  handle_task :: bool
  topics :: "(string \<times> WebsocketTopic) list"
  submitted :: "WebsocketTopic list"

definition Websocket_init :: "constants \<Rightarrow> real \<Rightarrow> nat \<Rightarrow> Websocket" where
  "Websocket_init c now index =
     \<lparr>idx = index, ws = False, closed_event = False, reconnect_requested = False,
      topics_changed = False, next_ping = now, max_pong = now + PING_TIMEOUT c,
      handle_task = False, topics = [], submitted = []\<rparr>"

definition request_reconnect :: "real \<Rightarrow> Websocket \<Rightarrow> Websocket" where
  "request_reconnect now w = w\<lparr>next_ping := now, reconnect_requested := True\<rparr>"

definition start_nowait :: "Websocket \<Rightarrow> Websocket" where
  "start_nowait w = (if \<not> handle_task w then w\<lparr>handle_task := True\<rparr> else w)"

subsection \<open>Adding and removing topics\<close>

text \<open>
  \<^verbatim>\<open>topics_set.pop()\<close> takes the head of the list: the caller's list fixes the order in
  which the set hands out its elements.
\<close>

fun add_loop :: "nat \<Rightarrow> (string \<times> WebsocketTopic) list \<Rightarrow> WebsocketTopic list \<Rightarrow> bool
    \<Rightarrow> (string \<times> WebsocketTopic) list \<times> WebsocketTopic list \<times> bool" where
  "add_loop limit_n tp [] changed = (tp, [], changed)"
| "add_loop limit_n tp (topic # topics_set) changed =
     (if length tp < limit_n
      then add_loop limit_n (AList.update (str topic) topic tp) topics_set True
      else (tp, topic # topics_set, changed))"

definition Websocket_add_topics ::
    "constants \<Rightarrow> Websocket \<Rightarrow> WebsocketTopic list \<Rightarrow> Websocket \<times> WebsocketTopic list" where
  "Websocket_add_topics c w topics_set =
     (case add_loop (WS_TOPICS_LIMIT c) (topics w) topics_set False of
        (tp, rest, changed) \<Rightarrow>
          (if changed then w\<lparr>topics := tp, topics_changed := True\<rparr> else w\<lparr>topics := tp\<rparr>, rest))"

definition Websocket_remove_topics ::
    "Websocket \<Rightarrow> string list \<Rightarrow> Websocket \<times> string list" where
  "Websocket_remove_topics w topics_set =
     (let existing = filter (\<lambda>k. k \<in> fst ` set (topics w)) topics_set
      in if existing = [] then (w, topics_set)
         else (w\<lparr>topics := fold AList.delete existing (topics w), topics_changed := True\<rparr>,
               filter (\<lambda>k. k \<notin> set existing) topics_set))"

subsection \<open>Sending\<close>

text \<open>
  Modelled from the spec: \<^verbatim>\<open>create_nonce\<close> and \<^verbatim>\<open>CHARS_ASCII\<close> (module \<^verbatim>\<open>utils\<close>) are
  missing. The spec's wire protocol gives the nonce as a "30-char random string" and each
  control message "a fresh per-message random nonce": \<open>rnd i\<close> is the \<open>i\<close>-th character
  the random source will draw from \<^verbatim>\<open>CHARS_ASCII\<close>, a nonce of length \<open>n\<close> takes the next
  \<open>n\<close> of them, and \<open>drawn n rnd\<close> is the source after that.
\<close>

definition create_nonce :: "(nat \<Rightarrow> char) \<Rightarrow> nat \<Rightarrow> string" where
  "create_nonce rnd n = map rnd [0..<n]"

definition drawn :: "nat \<Rightarrow> (nat \<Rightarrow> char) \<Rightarrow> (nat \<Rightarrow> char)" where
  "drawn n rnd = (\<lambda>i. rnd (i + n))"

text \<open>
  \<open>send_json m\<close> says whether the socket takes the frame \<open>m\<close>. The result lists the frames
  written.
\<close>

definition send :: "(message \<Rightarrow> bool) \<Rightarrow> (nat \<Rightarrow> char) \<Rightarrow> Websocket \<Rightarrow> message
    \<Rightarrow> exn option \<times> action list \<times> (nat \<Rightarrow> char)" where
  "send send_json rnd w message =
     (if \<not> ws w then (Some AssertionError, [], rnd)
      else (case map_of message ''type'' of
              None \<Rightarrow> (Some KeyError, [], rnd)
            | Some ty \<Rightarrow>
                (let message' = (if ty \<noteq> JStr ''PING''
                                 then AList.update ''nonce'' (JStr (create_nonce rnd 30)) message
                                 else message);
                     rnd' = (if ty \<noteq> JStr ''PING'' then drawn 30 rnd else rnd)
                 in if send_json message' then (None, [Sent message'], rnd')
                    else (Some TransportError, [], rnd'))))"

subsection \<open>The heartbeat check\<close>

text \<open>
  \<open>now\<close> is the clock reading of \<^verbatim>\<open>_handle_ping\<close>, \<open>now'\<close> the later one of
  \<^verbatim>\<open>request_reconnect\<close>.
\<close>

definition handle_ping :: "constants \<Rightarrow> real \<Rightarrow> real \<Rightarrow> (message \<Rightarrow> bool) \<Rightarrow> (nat \<Rightarrow> char)
    \<Rightarrow> Websocket \<Rightarrow> exn option \<times> Websocket \<times> action list \<times> (nat \<Rightarrow> char)" where
  "handle_ping c now now' send_json rnd w =
     (if now \<ge> next_ping w
      then (let w1 = w\<lparr>next_ping := now + PING_INTERVAL c, max_pong := now + PING_TIMEOUT c\<rparr>
            in case send send_json rnd w1 [(''type'', JStr ''PING'')] of
                 (e, acts, rnd') \<Rightarrow> (e, w1, acts, rnd'))
      else if now \<ge> max_pong w
      then (None, request_reconnect now' w, [Reconnect_request], rnd)
      else (None, w, [], rnd))"

subsection \<open>The subscription sync\<close>

definition control :: "string \<Rightarrow> string list \<Rightarrow> string \<Rightarrow> message" where
  "control ty topics_list token =
     [(''type'', JStr ty),
      (''data'', JDict [(''topics'', JList (map JStr topics_list)),
                        (''auth_token'', JStr token)])]"

text \<open>The two halves of \<^verbatim>\<open>_handle_topics\<close>: removed topics, then added topics.\<close>

definition sync_removed :: "string \<Rightarrow> (message \<Rightarrow> bool) \<Rightarrow> (nat \<Rightarrow> char) \<Rightarrow> Websocket
    \<Rightarrow> WebsocketTopic list \<Rightarrow> exn option \<times> Websocket \<times> action list \<times> (nat \<Rightarrow> char)" where
  "sync_removed token send_json rnd w current =
     (let removed = filter (\<lambda>t. t \<notin> set current) (submitted w)
      in if removed \<noteq> []
         then (case send send_json rnd w (control ''UNLISTEN'' (map str removed) token) of
                 (Some e, acts, rnd') \<Rightarrow> (Some e, w, acts, rnd')
               | (None, acts, rnd') \<Rightarrow>
                   (None, w\<lparr>submitted := filter (\<lambda>t. t \<notin> set removed) (submitted w)\<rparr>,
                    acts, rnd'))
         else (None, w, [], rnd))"

definition sync_added :: "string \<Rightarrow> (message \<Rightarrow> bool) \<Rightarrow> (nat \<Rightarrow> char) \<Rightarrow> Websocket
    \<Rightarrow> WebsocketTopic list \<Rightarrow> exn option \<times> Websocket \<times> action list \<times> (nat \<Rightarrow> char)" where
  "sync_added token send_json rnd w current =
     (let added = filter (\<lambda>t. t \<notin> set (submitted w)) current
      in if added \<noteq> []
         then (case send send_json rnd w (control ''LISTEN'' (map str added) token) of
                 (Some e, acts, rnd') \<Rightarrow> (Some e, w, acts, rnd')
               | (None, acts, rnd') \<Rightarrow> (None, w\<lparr>submitted := submitted w @ added\<rparr>, acts, rnd'))
         else (None, w, [], rnd))"

text \<open>\<open>token\<close> is the access token of the \<^verbatim>\<open>get_auth()\<close> call of this sync.\<close>

definition handle_topics :: "string \<Rightarrow> (message \<Rightarrow> bool) \<Rightarrow> (nat \<Rightarrow> char) \<Rightarrow> Websocket
    \<Rightarrow> exn option \<times> Websocket \<times> action list \<times> (nat \<Rightarrow> char)" where
  "handle_topics token send_json rnd w =
     (if \<not> topics_changed w then (None, w, [], rnd)
      else (let w0 = w\<lparr>topics_changed := False\<rparr>;
                current = remdups (map snd (topics w0))
            in case sync_removed token send_json rnd w0 current of
                 (Some e, w1, acts1, rnd1) \<Rightarrow> (Some e, w1, acts1, rnd1)
               | (None, w1, acts1, rnd1) \<Rightarrow>
                   (case sync_added token send_json rnd1 w1 current of
                      (e, w2, acts2, rnd2) \<Rightarrow> (e, w2, acts1 @ acts2, rnd2))))"

subsection \<open>Receiving\<close>

text \<open>
  What \<^verbatim>\<open>_gather_recv\<close> ends with: the text frames gathered until the timeout, or a
  \<^verbatim>\<open>WebsocketClosed\<close>, which leaves \<^verbatim>\<open>_handle_recv\<close> at once. The dispatch of a
  \<^verbatim>\<open>MESSAGE\<close> frame to its topic's handler reads \<^verbatim>\<open>topics\<close> and starts a task; it
  changes nothing of the connection.
\<close>

datatype received = Frames "message list" | Closed bool

fun recv_loop :: "real \<Rightarrow> Websocket \<Rightarrow> message list \<Rightarrow> Websocket \<times> action list" where
  "recv_loop now w [] = (w, [])"
| "recv_loop now w (m # messages) =
     (let msg_type = (case map_of m ''type'' of None \<Rightarrow> JStr [] | Some v \<Rightarrow> v)
      in if msg_type = JStr ''MESSAGE'' then recv_loop now w messages
         else if msg_type = JStr ''PONG'' then recv_loop now (w\<lparr>max_pong := next_ping w\<rparr>) messages
         else if msg_type = JStr ''RESPONSE'' then recv_loop now w messages
         else if msg_type = JStr ''RECONNECT'' then (request_reconnect now w, [Reconnect_request])
         else recv_loop now w messages)"

definition handle_recv :: "real \<Rightarrow> received \<Rightarrow> Websocket
    \<Rightarrow> exn option \<times> Websocket \<times> action list" where
  "handle_recv now r w =
     (case r of
        Closed b \<Rightarrow> (Some (WebsocketClosed b), w, [])
      | Frames messages \<Rightarrow> (case recv_loop now w messages of (w', acts) \<Rightarrow> (None, w', acts)))"

subsection \<open>The lifecycle task\<close>

text \<open>
  The pieces of \<^verbatim>\<open>_handle\<close>: its first lines up to the connect loop, the lines run when a
  socket is established, the steady-state loop, and the \<^verbatim>\<open>finally\<close> clause that ends a
  socket generation.
\<close>

definition handle_begin :: "Websocket \<Rightarrow> Websocket" where
  "handle_begin w = w\<lparr>closed_event := False, topics_changed := False\<rparr>"

definition handle_connected :: "Websocket \<Rightarrow> Websocket" where
  "handle_connected w = w\<lparr>ws := True, reconnect_requested := False\<rparr>"

definition handle_finally :: "Websocket \<Rightarrow> Websocket" where
  "handle_finally w = w\<lparr>ws := False, submitted := [], topics_changed := True\<rparr>"

text \<open>What one iteration of the steady-state loop gets from outside.\<close>

record iteration =
  t_ping :: real
  t_reconnect :: real
  access_token :: string
  send_json :: "message \<Rightarrow> bool"
  inbound :: received
  t_recv :: real

text \<open>
  The steady-state loop over the iterations given; it stops there when they are used up.
\<close>

fun steady_loop :: "constants \<Rightarrow> iteration list \<Rightarrow> (nat \<Rightarrow> char) \<Rightarrow> Websocket
    \<Rightarrow> exn option \<times> Websocket \<times> action list" where
  "steady_loop c [] rnd w = (None, w, [])"
| "steady_loop c (i # its) rnd w =
     (if reconnect_requested w then (None, w, [])
      else (case handle_ping c (t_ping i) (t_reconnect i) (send_json i) rnd w of
              (Some e, w1, a1, rnd1) \<Rightarrow> (Some e, w1, a1)
            | (None, w1, a1, rnd1) \<Rightarrow>
                (case handle_topics (access_token i) (send_json i) rnd1 w1 of
                   (Some e, w2, a2, rnd2) \<Rightarrow> (Some e, w2, a1 @ a2)
                 | (None, w2, a2, rnd2) \<Rightarrow>
                     (case handle_recv (t_recv i) (inbound i) w2 of
                        (Some e, w3, a3) \<Rightarrow> (Some e, w3, a1 @ a2 @ a3)
                      | (None, w3, a3) \<Rightarrow>
                          (case steady_loop c its rnd2 w3 of
                             (e, w4, a4) \<Rightarrow> (e, w4, a1 @ a2 @ a3 @ a4))))))"

subsection \<open>Stopping\<close>

text \<open>
  \<^verbatim>\<open>stop\<close> waits for the lifecycle task, which leaves its socket generation through the
  \<^verbatim>\<open>finally\<close> clause when it has one.
\<close>

definition Websocket_stop :: "bool \<Rightarrow> Websocket \<Rightarrow> Websocket" where
  "Websocket_stop remove w =
     (if closed_event w then w
      else (let w1 = w\<lparr>closed_event := True\<rparr>;
                w2 = (if handle_task w1
                      then (if ws w1 then handle_finally w1 else w1)\<lparr>handle_task := False\<rparr>
                      else w1)
            in if remove then w2\<lparr>topics := [], topics_changed := True\<rparr> else w2))"

section \<open>The pool\<close>

record WebsocketPool =
  running :: bool
  websockets :: "Websocket list"
  connection_count :: int

definition WebsocketPool_init :: WebsocketPool where
  "WebsocketPool_init = \<lparr>running = False, websockets = [], connection_count = 0\<rparr>"

text \<open>The tasks a pool operation hands to the event loop (\<^verbatim>\<open>asyncio.create_task\<close>).\<close>

datatype task = Stop_task Websocket bool | Add_topics_task "WebsocketTopic list"

subsection \<open>\<^verbatim>\<open>add_topics\<close>\<close>

text \<open>The first loop: existing connections that are connected and below the limit.\<close>

fun fill_loop :: "constants \<Rightarrow> Websocket list \<Rightarrow> WebsocketTopic list
    \<Rightarrow> bool \<times> Websocket list \<times> WebsocketTopic list" where
  "fill_loop c [] topics_set = (False, [], topics_set)"
| "fill_loop c (w # wss) topics_set =
     (if ws w \<and> length (topics w) < WS_TOPICS_LIMIT c
      then (case Websocket_add_topics c w topics_set of
              (w', rest) \<Rightarrow>
                if rest = [] then (True, w' # wss, [])
                else (case fill_loop c wss rest of
                        (returned, wss', rest') \<Rightarrow> (returned, w' # wss', rest')))
      else (case fill_loop c wss topics_set of
              (returned, wss', rest) \<Rightarrow> (returned, w # wss', rest)))"

text \<open>
  The second loop, over \<^verbatim>\<open>range(len(self.websockets), MAX_WEBSOCKETS)\<close>; \<open>clock i\<close> is the
  clock reading when the connection with index \<open>i\<close> is constructed. Leaving the loop at
  its end raises.
\<close>

fun create_loop :: "constants \<Rightarrow> (nat \<Rightarrow> real) \<Rightarrow> nat list \<Rightarrow> WebsocketPool
    \<Rightarrow> WebsocketTopic list \<Rightarrow> exn option \<times> WebsocketPool \<times> WebsocketTopic list" where
  "create_loop c clock [] p topics_set = (Some MinerException, p, topics_set)"
| "create_loop c clock (ws_idx # idxs) p topics_set =
     (let w0 = Websocket_init c (clock ws_idx) ws_idx;
          w1 = (if running p then start_nowait w0 else w0)
      in case Websocket_add_topics c w1 topics_set of
           (w2, rest) \<Rightarrow>
             (let p' = p\<lparr>websockets := websockets p @ [w2],
                         connection_count := connection_count p + 1\<rparr>
              in if rest = [] then (None, p', []) else create_loop c clock idxs p' rest))"

definition existing_topics :: "Websocket list \<Rightarrow> WebsocketTopic list" where
  "existing_topics wss = concat (map (\<lambda>w. map snd (topics w)) wss)"

definition WebsocketPool_add_topics :: "constants \<Rightarrow> (nat \<Rightarrow> real) \<Rightarrow> WebsocketPool
    \<Rightarrow> WebsocketTopic list \<Rightarrow> exn option \<times> WebsocketPool" where
  "WebsocketPool_add_topics c clock p topics_arg =
     (let topics_set = remdups topics_arg
      in if topics_set = [] then (None, p)
         else
          (let topics_set' =
                 filter (\<lambda>t. t \<notin> set (existing_topics (websockets p))) topics_set
           in if topics_set' = [] then (None, p)
              else (case fill_loop c (websockets p) topics_set' of
                      (returned, wss, rest) \<Rightarrow>
                        if returned then (None, p\<lparr>websockets := wss\<rparr>)
                        else (case create_loop c clock [length wss ..< MAX_WEBSOCKETS c]
                                     (p\<lparr>websockets := wss\<rparr>) rest of
                                (e, p', rest') \<Rightarrow> (e, p')))))"

subsection \<open>\<^verbatim>\<open>remove_topics\<close> and consolidation\<close>

fun remove_loop :: "Websocket list \<Rightarrow> string list \<Rightarrow> Websocket list \<times> string list" where
  "remove_loop [] topics_set = ([], topics_set)"
| "remove_loop (w # wss) topics_set =
     (case Websocket_remove_topics w topics_set of
        (w', rest) \<Rightarrow> (case remove_loop wss rest of (wss', rest') \<Rightarrow> (w' # wss', rest')))"

text \<open>
  The \<^verbatim>\<open>while\<close> loop of \<^verbatim>\<open>_optimize_pool\<close> over \<^verbatim>\<open>sorted_websockets\<close>. Connections are
  compared by identity in the source and by value here: \<^verbatim>\<open>sorted\<close> is stable, so the
  connection popped is the first of the pool's list with its value, the one \<open>remove1\<close>
  takes.
\<close>

fun evict_loop :: "nat \<Rightarrow> Websocket list \<Rightarrow> WebsocketPool \<Rightarrow> WebsocketTopic list \<Rightarrow> task list
    \<Rightarrow> WebsocketPool \<times> WebsocketTopic list \<times> task list" where
  "evict_loop required_websockets [] p recycled_topics stops = (p, recycled_topics, stops)"
| "evict_loop required_websockets (w # sorted_websockets) p recycled_topics stops =
     (if length (w # sorted_websockets) > required_websockets
      then evict_loop required_websockets sorted_websockets
             (p\<lparr>websockets := remove1 w (websockets p),
                connection_count := max 0 (connection_count p - 1)\<rparr>)
             (recycled_topics @ map snd (topics w))
             (stops @ [Stop_task w True])
      else (p, recycled_topics, stops))"

definition optimize_pool :: "constants \<Rightarrow> WebsocketPool
    \<Rightarrow> exn option \<times> WebsocketPool \<times> task list" where
  "optimize_pool c p =
     (if length (websockets p) < 2 then (None, p, [])
      else if WS_TOPICS_LIMIT c = 0 then (Some ZeroDivisionError, p, [])
      else
       (let total_topics = sum_list (map (\<lambda>w. length (topics w)) (websockets p));
            required_websockets = (total_topics + WS_TOPICS_LIMIT c - 1) div WS_TOPICS_LIMIT c
        in if length (websockets p) > required_websockets
           then (case evict_loop required_websockets
                        (sort_key (\<lambda>w. length (topics w)) (websockets p)) p [] [] of
                   (p', recycled_topics, stops) \<Rightarrow>
                     (None, p',
                      stops @ (if recycled_topics \<noteq> [] then [Add_topics_task recycled_topics]
                               else [])))
           else (None, p, [])))"

definition WebsocketPool_remove_topics :: "constants \<Rightarrow> WebsocketPool \<Rightarrow> string list
    \<Rightarrow> exn option \<times> WebsocketPool \<times> task list" where
  "WebsocketPool_remove_topics c p topics_arg =
     (let topics_set = remdups topics_arg
      in if topics_set = [] then (None, p, [])
         else (case remove_loop (websockets p) topics_set of
                 (wss, rest) \<Rightarrow> optimize_pool c (p\<lparr>websockets := wss\<rparr>)))"

subsection \<open>\<^verbatim>\<open>start\<close> and \<^verbatim>\<open>stop\<close>\<close>

text \<open>
  \<^verbatim>\<open>start\<close> starts the lifecycle task of every connection (and waits for their sockets);
  \<^verbatim>\<open>stop\<close> stops every connection.
\<close>

definition WebsocketPool_start :: "WebsocketPool \<Rightarrow> WebsocketPool" where
  "WebsocketPool_start p = p\<lparr>running := True, websockets := map start_nowait (websockets p)\<rparr>"

definition WebsocketPool_stop :: "bool \<Rightarrow> WebsocketPool \<Rightarrow> WebsocketPool" where
  "WebsocketPool_stop clear_topics p =
     p\<lparr>running := False,
       websockets := map (Websocket_stop clear_topics) (websockets p),
       connection_count := 0\<rparr>"

section \<open>Sequences of pool operations\<close>

text \<open>
  The pool together with the \<^verbatim>\<open>add_topics\<close> tasks that consolidation has handed to the
  event loop and that have not run yet.
\<close>

record system =
  pool :: WebsocketPool
  recycling :: "WebsocketTopic list list"

fun recycled_of :: "task list \<Rightarrow> WebsocketTopic list list" where
  "recycled_of [] = []"
| "recycled_of (Add_topics_task ts # tasks) = ts # recycled_of tasks"
| "recycled_of (Stop_task w remove # tasks) = recycled_of tasks"

definition update_ws :: "nat \<Rightarrow> (Websocket \<Rightarrow> Websocket) \<Rightarrow> WebsocketPool \<Rightarrow> WebsocketPool" where
  "update_ws i f p =
     (if i < length (websockets p)
      then p\<lparr>websockets := (websockets p)[i := f (websockets p ! i)]\<rparr> else p)"

text \<open>
  What can happen to a pool: the calls of its four methods, the run of the oldest waiting
  \<^verbatim>\<open>add_topics\<close> task of a consolidation, and the lifecycle task of the connection at a
  position of the list getting a socket or leaving its socket generation. An exception of
  \<^verbatim>\<open>add_topics\<close> or \<^verbatim>\<open>remove_topics\<close> goes to the caller; the pool stays as the call
  left it.
\<close>

datatype event = Add "WebsocketTopic list" | Remove "string list" | Readd
  | Connected nat | Disconnected nat | Start | Stop bool

fun step :: "constants \<Rightarrow> (nat \<Rightarrow> real) \<Rightarrow> system \<Rightarrow> event \<Rightarrow> system" where
  "step c clock s (Add ts) = s\<lparr>pool := snd (WebsocketPool_add_topics c clock (pool s) ts)\<rparr>"
| "step c clock s (Remove ks) =
     (case WebsocketPool_remove_topics c (pool s) ks of
        (e, p, tasks) \<Rightarrow> s\<lparr>pool := p, recycling := recycling s @ recycled_of tasks\<rparr>)"
| "step c clock s Readd =
     (case recycling s of
        [] \<Rightarrow> s
      | ts # waiting \<Rightarrow>
          \<lparr>pool = snd (WebsocketPool_add_topics c clock (pool s) ts), recycling = waiting\<rparr>)"
| "step c clock s (Connected i) = s\<lparr>pool := update_ws i handle_connected (pool s)\<rparr>"
| "step c clock s (Disconnected i) = s\<lparr>pool := update_ws i handle_finally (pool s)\<rparr>"
| "step c clock s Start = s\<lparr>pool := WebsocketPool_start (pool s)\<rparr>"
| "step c clock s (Stop clear_topics) = s\<lparr>pool := WebsocketPool_stop clear_topics (pool s)\<rparr>"

definition system_init :: system where
  "system_init = \<lparr>pool = WebsocketPool_init, recycling = []\<rparr>"

definition run :: "constants \<Rightarrow> (nat \<Rightarrow> real) \<Rightarrow> event list \<Rightarrow> system" where
  "run c clock evs = foldl (step c clock) system_init evs"

section \<open>Invariants\<close>

text \<open>The dict is keyed by the string form of its values.\<close>

definition keyed_by_str :: "(string \<times> WebsocketTopic) list \<Rightarrow> bool" where
  "keyed_by_str tp = list_all (\<lambda>(k, v). str v = k) tp"

definition keys :: "Websocket \<Rightarrow> string set" where
  "keys w = fst ` set (topics w)"

text \<open>No topic key is assigned to two connections of the pool.\<close>

definition no_shared_key :: "WebsocketPool \<Rightarrow> bool" where
  "no_shared_key p \<longleftrightarrow>
     (\<forall>i < length (websockets p). \<forall>j < length (websockets p).
        i \<noteq> j \<longrightarrow> keys (websockets p ! i) \<inter> keys (websockets p ! j) = {})"

text \<open>The positions of the pool's list whose connection holds the key of a topic.\<close>

definition assigned_at :: "WebsocketPool \<Rightarrow> WebsocketTopic \<Rightarrow> nat list" where
  "assigned_at p t = filter (\<lambda>i. str t \<in> keys (websockets p ! i)) [0..<length (websockets p)]"

definition total_topics :: "WebsocketPool \<Rightarrow> nat" where
  "total_topics p = sum_list (map (\<lambda>w. length (topics w)) (websockets p))"

definition pool_inv :: "constants \<Rightarrow> WebsocketPool \<Rightarrow> bool" where
  "pool_inv c p \<longleftrightarrow>
     distinct (existing_topics (websockets p)) \<and>
     list_all (\<lambda>w. keyed_by_str (topics w) \<and> length (topics w) \<le> WS_TOPICS_LIMIT c)
       (websockets p) \<and>
     length (websockets p) \<le> MAX_WEBSOCKETS c"

text \<open>The topics of a call of the pool's \<^verbatim>\<open>add_topics\<close> that are not assigned yet.\<close>

definition new_topics :: "WebsocketPool \<Rightarrow> WebsocketTopic list \<Rightarrow> WebsocketTopic list" where
  "new_topics p ts = filter (\<lambda>t. t \<notin> set (existing_topics (websockets p))) (remdups ts)"

text \<open>All keys of the topic maps of a list of connections.\<close>

definition all_keys :: "Websocket list \<Rightarrow> string list" where
  "all_keys wss = concat (map (\<lambda>w. map fst (topics w)) wss)"

text \<open>
  The pool after the first loop of \<^verbatim>\<open>remove_topics\<close>, and the connections that the
  consolidation detaches: the first of the sorted list, down to the required number.
\<close>

definition removed :: "WebsocketPool \<Rightarrow> string list \<Rightarrow> WebsocketPool" where
  "removed p ks = p\<lparr>websockets := map (\<lambda>w. fst (Websocket_remove_topics w ks)) (websockets p)\<rparr>"

definition evicted :: "nat \<Rightarrow> Websocket list \<Rightarrow> Websocket list" where
  "evicted r s = take (length s - r) s"


section \<open>Frames and the submitted set\<close>

text \<open>
  The control message of the spec's wire protocol: a type, the data with the topic keys and
  the access token, and the nonce.
\<close>

definition control_frame :: "string \<Rightarrow> string list \<Rightarrow> string \<Rightarrow> string \<Rightarrow> message" where
  "control_frame ty topics_list token nonce =
     [(''type'', JStr ty),
      (''data'', JDict [(''topics'', JList (map JStr topics_list)),
                        (''auth_token'', JStr token)]),
      (''nonce'', JStr nonce)]"


text \<open>The submitted topics are the assigned topics: the next sync has nothing to send.\<close>

definition in_sync :: "Websocket \<Rightarrow> bool" where
  "in_sync w \<longleftrightarrow> set (submitted w) = snd ` set (topics w)"

text \<open>The number of calls of \<^verbatim>\<open>request_reconnect\<close> among the actions.\<close>

definition requests :: "action list \<Rightarrow> nat" where
  "requests acts = length (filter (\<lambda>a. a = Reconnect_request) acts)"

section \<open>Example values\<close>

definition ex_constants :: constants where
  "ex_constants = \<lparr>PING_INTERVAL = 3, PING_TIMEOUT = 1, MAX_WEBSOCKETS = 2, WS_TOPICS_LIMIT = 2\<rparr>"

definition ex_ws :: Websocket where
  "ex_ws = (Websocket_init ex_constants 0 0)\<lparr>topics := [(''A'', WebsocketTopic ''A'')]\<rparr>"

definition ex_pool :: WebsocketPool where
  "ex_pool = \<lparr>running = True,
     websockets = [ex_ws\<lparr>ws := True, handle_task := True, submitted := [WebsocketTopic ''A'']\<rparr>,
                   Websocket_init ex_constants 0 1],
     connection_count = 2\<rparr>"

text \<open>
  An iteration of the steady-state loop at clock reading \<open>t\<close> with no inbound frame and a
  socket that takes every frame.
\<close>

definition quiet :: "real \<Rightarrow> iteration" where
  "quiet t = \<lparr>t_ping = t, t_reconnect = t, access_token = ''token'', send_json = (\<lambda>m. True),
              inbound = Frames [], t_recv = t\<rparr>"

definition ex_equal :: constants where
  "ex_equal = \<lparr>PING_INTERVAL = 1, PING_TIMEOUT = 1, MAX_WEBSOCKETS = 2, WS_TOPICS_LIMIT = 2\<rparr>"

definition ex_rnd :: "nat \<Rightarrow> char" where
  "ex_rnd i = (if even i then CHR ''a'' else CHR ''b'')"

text \<open>
  A connected connection that was given the topic \<open>A\<close> and has not synced yet, the same
  after its sync, and one with \<open>A\<close> assigned and \<open>B\<close> submitted.
\<close>

definition ex_unsynced :: Websocket where
  "ex_unsynced =
     handle_connected (fst (Websocket_add_topics ex_constants (Websocket_init ex_constants 0 0)
       [WebsocketTopic ''A'']))"

definition ex_synced :: Websocket where
  "ex_synced = fst (snd (handle_topics ''token'' (\<lambda>m. True) ex_rnd ex_unsynced))"

definition ex_dirty :: Websocket where
  "ex_dirty = ex_ws\<lparr>ws := True, topics_changed := True, submitted := [WebsocketTopic ''B'']\<rparr>"


text \<open>
  A pool that was never started, after two calls of \<^verbatim>\<open>add_topics\<close>, and a started pool
  whose one connection has its socket.
\<close>

definition ex_clock :: "nat \<Rightarrow> real" where
  "ex_clock i = 0"

definition ex_idle_pool :: WebsocketPool where
  "ex_idle_pool =
     pool (run ex_constants ex_clock [Add [WebsocketTopic ''A''], Add [WebsocketTopic ''B'']])"

definition ex_live_pool :: WebsocketPool where
  "ex_live_pool = pool (run ex_constants ex_clock [Start, Add [WebsocketTopic ''A''], Connected 0])"

definition ex_small :: constants where
  "ex_small = \<lparr>PING_INTERVAL = 3, PING_TIMEOUT = 1, MAX_WEBSOCKETS = 1, WS_TOPICS_LIMIT = 2\<rparr>"



section \<open>Association lists\<close>

lemma set_update_subset: "set (AList.update k v al) \<subseteq> insert (k, v) (set al)"
  by (induction al) auto

lemma fold_delete_filter: "fold AList.delete ks al = filter (\<lambda>e. fst e \<notin> set ks) al"
proof (induction ks arbitrary: al)
  case Nil
  then show ?case by simp
next
  case (Cons k ks)
  have "AList.delete k al = filter (\<lambda>e. fst e \<noteq> k) al"
    by (simp add: AList.delete_eq case_prod_unfold eq_commute)
  then show ?case
    using Cons by (simp add: conj_commute)
qed

lemma keyed_by_str_iff: "keyed_by_str tp \<longleftrightarrow> (\<forall>e \<in> set tp. str (snd e) = fst e)"
  by (auto simp: keyed_by_str_def list_all_iff)

lemma keyed_by_str_update: "keyed_by_str tp \<Longrightarrow> keyed_by_str (AList.update (str t) t tp)"
  using set_update_subset [of "str t" t tp] by (fastforce simp: keyed_by_str_iff)

lemma keyed_by_str_filter: "keyed_by_str tp \<Longrightarrow> keyed_by_str (filter P tp)"
  by (simp add: keyed_by_str_iff)

lemma add_loop_keyed:
  "keyed_by_str tp \<Longrightarrow> keyed_by_str (fst (add_loop n tp ts changed))"
  by (induction ts arbitrary: tp changed) (simp_all add: keyed_by_str_update)

lemma topics_add_topics:
  "topics (fst (Websocket_add_topics c w ts)) = fst (add_loop (WS_TOPICS_LIMIT c) (topics w) ts False)"
  by (simp add: Websocket_add_topics_def split: prod.splits)

lemma topics_remove_topics:
  "topics (fst (Websocket_remove_topics w ks)) = filter (\<lambda>e. fst e \<notin> set ks) (topics w)"
proof -
  let ?ex = "filter (\<lambda>k. k \<in> fst ` set (topics w)) ks"
  have "filter (\<lambda>e. fst e \<notin> set ?ex) (topics w) = filter (\<lambda>e. fst e \<notin> set ks) (topics w)"
    by (rule filter_cong) auto
  moreover have "?ex = [] \<Longrightarrow> filter (\<lambda>e. fst e \<notin> set ks) (topics w) = topics w"
    by (auto simp: filter_empty_conv filter_id_conv)
  ultimately show ?thesis
    by (simp add: Websocket_remove_topics_def Let_def fold_delete_filter)
qed

section \<open>Stopping and starting\<close>

lemma closed_event_stop: "closed_event (Websocket_stop remove w)"
  by (simp add: Websocket_stop_def Let_def handle_finally_def)

lemma idx_stop: "idx (Websocket_stop remove w) = idx w"
  by (simp add: Websocket_stop_def Let_def handle_finally_def)

lemma handle_task_stop: "\<not> closed_event w \<Longrightarrow> \<not> handle_task (Websocket_stop remove w)"
  by (simp add: Websocket_stop_def Let_def handle_finally_def)

lemma topics_stop:
  "topics (Websocket_stop remove w) = (if remove \<and> \<not> closed_event w then [] else topics w)"
  by (simp add: Websocket_stop_def Let_def handle_finally_def)

lemma handle_task_start_nowait: "handle_task (start_nowait w)"
  by (simp add: start_nowait_def)

section \<open>Sending, sync and heartbeat\<close>

lemma length_create_nonce: "length (create_nonce rnd n) = n"
  by (simp add: create_nonce_def)

lemma drawn_drawn: "drawn m (drawn n rnd) = drawn (n + m) rnd"
  by (simp add: drawn_def ac_simps)

lemma send_ping:
  "send sj rnd w [(''type'', JStr ''PING'')] =
     (if \<not> ws w then (Some AssertionError, [], rnd)
      else if sj [(''type'', JStr ''PING'')] then (None, [Sent [(''type'', JStr ''PING'')]], rnd)
      else (Some TransportError, [], rnd))"
  by (simp add: send_def)

lemma send_control:
  "ty \<noteq> ''PING'' \<Longrightarrow> send sj rnd w (control ty ks tok) =
     (if \<not> ws w then (Some AssertionError, [], rnd)
      else if sj (control_frame ty ks tok (create_nonce rnd 30))
      then (None, [Sent (control_frame ty ks tok (create_nonce rnd 30))], drawn 30 rnd)
      else (Some TransportError, [], drawn 30 rnd))"
  by (simp add: send_def control_def control_frame_def)

lemma handle_ping_sent:
  "Sent m \<in> set (fst (snd (snd (handle_ping c now now' sj rnd w)))) \<Longrightarrow> m = [(''type'', JStr ''PING'')]"
  by (auto simp: handle_ping_def send_ping Let_def split: if_splits)

lemma sync_removed_cases:
  "sync_removed tok sj rnd w cur =
    (let removed = filter (\<lambda>t. t \<notin> set cur) (submitted w) in
     if removed = [] then (None, w, [], rnd)
     else if \<not> ws w then (Some AssertionError, w, [], rnd)
     else if sj (control_frame ''UNLISTEN'' (map str removed) tok (create_nonce rnd 30))
     then (None, w\<lparr>submitted := filter (\<lambda>t. t \<notin> set removed) (submitted w)\<rparr>,
           [Sent (control_frame ''UNLISTEN'' (map str removed) tok (create_nonce rnd 30))], drawn 30 rnd)
     else (Some TransportError, w, [], drawn 30 rnd))"
  by (simp add: sync_removed_def send_control Let_def)

lemma sync_added_cases:
  "sync_added tok sj rnd w cur =
    (let added = filter (\<lambda>t. t \<notin> set (submitted w)) cur in
     if added = [] then (None, w, [], rnd)
     else if \<not> ws w then (Some AssertionError, w, [], rnd)
     else if sj (control_frame ''LISTEN'' (map str added) tok (create_nonce rnd 30))
     then (None, w\<lparr>submitted := submitted w @ added\<rparr>,
           [Sent (control_frame ''LISTEN'' (map str added) tok (create_nonce rnd 30))], drawn 30 rnd)
     else (Some TransportError, w, [], drawn 30 rnd))"
  by (simp add: sync_added_def send_control Let_def)

lemma ws_sync_removed: "ws (fst (snd (sync_removed tok sj rnd w cur))) = ws w"
  by (simp add: sync_removed_cases Let_def)

lemma sync_removed_shape:
  assumes "sync_removed tok sj rnd w cur = (e, w', a, r)"
  shows "(a = [] \<and> (e = None \<longrightarrow> r = rnd \<and> w' = w)) \<or>
         (e = None \<and> r = drawn 30 rnd \<and>
          (\<exists>ks. a = [Sent (control_frame ''UNLISTEN'' ks tok (create_nonce rnd 30))]))"
  using assms by (auto simp: sync_removed_cases Let_def split: if_splits)

lemma sync_added_shape:
  assumes "sync_added tok sj rnd w cur = (e, w', a, r)"
  shows "a = [] \<or> (e = None \<and> (\<exists>ks. a = [Sent (control_frame ''LISTEN'' ks tok (create_nonce rnd 30))]))"
  using assms by (auto simp: sync_added_cases Let_def split: if_splits)

lemma handle_topics_frames:
  assumes "handle_topics tok sj rnd w = (e, w', acts, rnd')"
  shows "acts = [] \<or>
   (\<exists>ty ks. (ty = ''LISTEN'' \<or> ty = ''UNLISTEN'') \<and>
      acts = [Sent (control_frame ty ks tok (create_nonce rnd 30))]) \<or>
   (\<exists>ks ks'. acts =
      [Sent (control_frame ''UNLISTEN'' ks tok (create_nonce rnd 30)),
       Sent (control_frame ''LISTEN'' ks' tok (create_nonce (drawn 30 rnd) 30))])"
proof (cases "topics_changed w")
  case False
  with assms show ?thesis by (simp add: handle_topics_def)
next
  case True
  let ?w0 = "w\<lparr>topics_changed := False\<rparr>"
  let ?cur = "remdups (map snd (topics ?w0))"
  obtain e1 w1 a1 r1 where r: "sync_removed tok sj rnd ?w0 ?cur = (e1, w1, a1, r1)"
    by (metis prod_cases4)
  obtain e2 w2 a2 r2 where a: "sync_added tok sj r1 w1 ?cur = (e2, w2, a2, r2)"
    by (metis prod_cases4)
  note R = sync_removed_shape [OF r] and A = sync_added_shape [OF a]
  show ?thesis
  proof (cases e1)
    case (Some x)
    with assms True r have "acts = a1" by (simp add: handle_topics_def Let_def)
    with R Some show ?thesis by auto
  next
    case None
    with assms True r a have "acts = a1 @ a2" by (simp add: handle_topics_def Let_def)
    with R A None show ?thesis by (elim disjE conjE exE; simp; blast)
  qed
qed

lemma update_fresh: "k \<notin> fst ` set al \<Longrightarrow> AList.update k v al = al @ [(k, v)]"
  by (induction al) auto

lemma keyed_keys: "keyed_by_str tp \<Longrightarrow> fst ` set tp = str ` snd ` set tp"
  by (force simp: keyed_by_str_iff image_iff)

lemma str_eq_iff: "str a = str b \<longleftrightarrow> a = b"
  by (auto simp: WebsocketTopic.expand)

lemma inj_str: "inj str"
  by (simp add: inj_def str_eq_iff)

lemma keyed_fresh:
  assumes "keyed_by_str tp" and "t \<notin> snd ` set tp"
  shows "str t \<notin> fst ` set tp"
proof
  assume "str t \<in> fst ` set tp"
  then obtain e where e: "e \<in> set tp" "fst e = str t" by auto
  with assms(1) have "str (snd e) = str t" by (simp add: keyed_by_str_iff)
  then have "snd e = t" by (simp add: str_eq_iff)
  with e(1) assms(2) show False by (metis image_eqI)
qed



lemma submitted_add_topics: "submitted (fst (Websocket_add_topics c w ts)) = submitted w"
  by (simp add: Websocket_add_topics_def split: prod.splits)

lemma submitted_remove_topics: "submitted (fst (Websocket_remove_topics w ks)) = submitted w"
  by (simp add: Websocket_remove_topics_def Let_def)


lemma sync_removed_state:
  assumes "sync_removed tok sj rnd w cur = (e, w', a, r)"
  shows "topics w' = topics w" and "ws w' = ws w" and "topics_changed w' = topics_changed w"
    and "set (submitted w') \<subseteq> set (submitted w)"
    and "e = None \<Longrightarrow> set (submitted w') = set (submitted w) \<inter> set cur"
  using assms by (auto simp: sync_removed_cases Let_def filter_empty_conv split: if_splits)

lemma sync_added_state:
  assumes "sync_added tok sj rnd w cur = (e, w', a, r)"
  shows "topics w' = topics w" and "ws w' = ws w" and "topics_changed w' = topics_changed w"
    and "set (submitted w') \<subseteq> set (submitted w) \<union> set cur"
    and "set (submitted w) \<subseteq> set (submitted w')"
    and "e = None \<Longrightarrow> set (submitted w') = set (submitted w) \<union> set cur"
  using assms by (auto simp: sync_added_cases Let_def filter_empty_conv split: if_splits)

lemma sync_added_new:
  assumes "sync_added tok sj rnd w cur = (e, w', a, r)"
    and "t \<in> set (submitted w')" and "t \<notin> set (submitted w)"
  shows "ws w \<and> e = None \<and> (\<exists>ks. str t \<in> set ks \<and> a = [Sent (control_frame ''LISTEN'' ks tok (create_nonce rnd 30))])"
proof -
  let ?added = "filter (\<lambda>t. t \<notin> set (submitted w)) cur"
  from assms have "ws w" and "e = None" and "t \<in> set ?added"
    and "a = [Sent (control_frame ''LISTEN'' (map str ?added) tok (create_nonce rnd 30))]"
    by (auto simp: sync_added_cases Let_def split: if_splits)
  then show ?thesis
    by (intro conjI exI [of _ "map str ?added"]) auto
qed

lemma handle_topics_unchanged:
  "\<not> topics_changed w \<Longrightarrow> handle_topics tok sj rnd w = (None, w, [], rnd)"
  by (simp add: handle_topics_def)

lemma handle_topics_state:
  assumes "handle_topics tok sj rnd w = (e, w', acts, rnd')"
  shows "topics w' = topics w" and "ws w' = ws w"
    and "set (submitted w') \<subseteq> set (submitted w) \<union> snd ` set (topics w)"
    and "set (submitted w) \<subseteq> snd ` set (topics w) \<Longrightarrow> set (submitted w') \<subseteq> snd ` set (topics w)"
    and "topics_changed w \<Longrightarrow> e = None \<Longrightarrow> set (submitted w') = snd ` set (topics w)"
    and "t \<in> set (submitted w') \<Longrightarrow> t \<notin> set (submitted w) \<Longrightarrow>
           ws w \<and> (\<exists>ks nonce. str t \<in> set ks \<and> Sent (control_frame ''LISTEN'' ks tok nonce) \<in> set acts)"
    and "reconnect_requested w' = reconnect_requested w"
    and "Reconnect_request \<notin> set acts"
proof -
  let ?w0 = "w\<lparr>topics_changed := False\<rparr>"
  let ?cur = "remdups (map snd (topics ?w0))"
  obtain e1 w1 a1 r1 where r: "sync_removed tok sj rnd ?w0 ?cur = (e1, w1, a1, r1)"
    by (metis prod_cases4)
  obtain e2 w2 a2 r2 where a: "sync_added tok sj r1 w1 ?cur = (e2, w2, a2, r2)"
    by (metis prod_cases4)
  note R = sync_removed_state [OF r] and A = sync_added_state [OF a]
  have res: "(e, w', acts, rnd') =
      (if \<not> topics_changed w then (None, w, [], rnd)
       else if e1 = None then (e2, w2, a1 @ a2, r2) else (e1, w1, a1, r1))"
    using assms r a by (auto simp: handle_topics_def Let_def split: option.splits)
  have cur: "set ?cur = snd ` set (topics w)" by simp
  show "topics w' = topics w"
    using res R(1) A(1) by (auto split: if_splits)
  show "ws w' = ws w"
    using res R(2) A(2) by (auto split: if_splits)
  show "set (submitted w') \<subseteq> set (submitted w) \<union> snd ` set (topics w)"
    using res R(4) A(4) cur by (auto split: if_splits)
  show "set (submitted w') \<subseteq> snd ` set (topics w)" if "set (submitted w) \<subseteq> snd ` set (topics w)"
    using that res R(4) A(4) cur by (auto split: if_splits)
  show "set (submitted w') = snd ` set (topics w)" if "topics_changed w" "e = None"
  proof -
    from that res have e1: "e1 = None" and e2: "e2 = None" and w': "w' = w2"
      by (auto split: if_splits)
    from R(5) [OF e1] A(6) [OF e2] cur w' show ?thesis by auto
  qed
  show "ws w \<and> (\<exists>ks nonce. str t \<in> set ks \<and> Sent (control_frame ''LISTEN'' ks tok nonce) \<in> set acts)"
    if t: "t \<in> set (submitted w')" "t \<notin> set (submitted w)"
  proof -
    from t res R(4) have c: "topics_changed w" and e1: "e1 = None" and w': "w' = w2" and acts: "acts = a1 @ a2"
      by (auto split: if_splits)
    from t R(4) w' have "t \<in> set (submitted w2)" "t \<notin> set (submitted w1)" by auto
    from sync_added_new [OF a this] obtain ks where ks: "ws w1" "str t \<in> set ks"
      "a2 = [Sent (control_frame ''LISTEN'' ks tok (create_nonce r1 30))]" by auto
    with R(2) acts show ?thesis
      by (intro conjI exI [of _ ks] exI [of _ "create_nonce r1 30"]) auto
  qed
  have rr: "reconnect_requested w1 = reconnect_requested w" "reconnect_requested w2 = reconnect_requested w1"
    using r a by (auto simp: sync_removed_cases sync_added_cases Let_def split: if_splits)
  show "reconnect_requested w' = reconnect_requested w"
    using res rr by (auto split: if_splits)
  have "Reconnect_request \<notin> set a1" "Reconnect_request \<notin> set a2"
    using r a by (auto simp: sync_removed_cases sync_added_cases Let_def split: if_splits)
  then show "Reconnect_request \<notin> set acts"
    using res by (auto split: if_splits)
qed


lemma add_then_remove:
  assumes "str t \<notin> keys w"
  shows "topics (fst (Websocket_remove_topics (fst (Websocket_add_topics c w [t])) [str t])) = topics w"
proof -
  have "filter (\<lambda>e. fst e \<noteq> str t) (topics w) = topics w"
    unfolding filter_id_conv using assms unfolding keys_def by (metis imageI)
  then show ?thesis
    using assms by (simp add: topics_remove_topics topics_add_topics update_fresh keys_def)
qed

lemma in_sync_silent:
  assumes "in_sync w"
  shows "handle_topics tok sj rnd w = (None, w\<lparr>topics_changed := False\<rparr>, [], rnd)"
proof (cases "topics_changed w")
  case True
  have "filter (\<lambda>t. t \<notin> snd ` set (topics w)) (submitted w) = []"
       "filter (\<lambda>t. t \<notin> set (submitted w)) (remdups (map snd (topics w))) = []"
    using assms by (auto simp: in_sync_def filter_empty_conv)
  with True show ?thesis
    by (simp add: handle_topics_def sync_removed_cases sync_added_cases Let_def)
next
  case False
  then have "w\<lparr>topics_changed := False\<rparr> = w" by simp
  with False show ?thesis by (simp add: handle_topics_def)
qed

lemma requests_simps [simp]:
  "requests [] = 0" "requests (acts @ acts') = requests acts + requests acts'"
  "requests (Sent m # acts) = requests acts" "requests (Reconnect_request # acts) = Suc (requests acts)"
  by (simp_all add: requests_def)

lemma requests_0: "Reconnect_request \<notin> set acts \<Longrightarrow> requests acts = 0"
  by (auto simp: requests_def filter_empty_conv)

lemma handle_ping_timeout:
  "now < next_ping w \<Longrightarrow> max_pong w \<le> now \<Longrightarrow>
   handle_ping c now now' sj rnd w = (None, request_reconnect now' w, [Reconnect_request], rnd)"
  by (simp add: handle_ping_def)

lemma handle_ping_requests:
  assumes "handle_ping c now now' sj rnd w = (e, w', acts, rnd')" and "\<not> reconnect_requested w"
  shows "requests acts \<le> 1" and "requests acts = 1 \<longleftrightarrow> reconnect_requested w'"
    and "requests acts = 1 \<longleftrightarrow> now < next_ping w \<and> max_pong w \<le> now"
  using assms
  by (auto simp: handle_ping_def send_ping Let_def request_reconnect_def split: if_splits)

lemma handle_recv_no_frames: "handle_recv now (Frames []) w = (None, w, [])"
  by (simp add: handle_recv_def)

lemma steady_loop_requested:
  "reconnect_requested w \<Longrightarrow> steady_loop c its rnd w = (None, w, [])"
  by (cases its) simp_all

lemma steady_loop_requests:
  assumes "\<forall>i \<in> set its. inbound i = Frames []"
  shows "requests (snd (snd (steady_loop c its rnd w))) \<le> 1"
  using assms
proof (induction its arbitrary: rnd w)
  case Nil
  then show ?case by simp
next
  case (Cons i its)
  show ?case
  proof (cases "reconnect_requested w")
    case True
    then show ?thesis by simp
  next
    case False
    obtain e1 w1 a1 r1 where p: "handle_ping c (t_ping i) (t_reconnect i) (send_json i) rnd w = (e1, w1, a1, r1)"
      by (metis prod_cases4)
    obtain e2 w2 a2 r2 where t: "handle_topics (access_token i) (send_json i) r1 w1 = (e2, w2, a2, r2)"
      by (metis prod_cases4)
    note P = handle_ping_requests [OF p False] and T = handle_topics_state(7,8) [OF t]
    have a2: "requests a2 = 0" using T(2) by (rule requests_0)
    have inb: "inbound i = Frames []" using Cons.prems by simp
    show ?thesis
    proof (cases "requests a1 = 1")
      case True
      then have "reconnect_requested w2" using P(2) T(1) by simp
      then have "steady_loop c its r2 w2 = (None, w2, [])" by (rule steady_loop_requested)
      then show ?thesis
        using False p t a2 True inb
        by (simp add: handle_recv_no_frames split: option.splits)
    next
      case no: False
      with P(1) have a1: "requests a1 = 0" by simp
      have "requests (snd (snd (steady_loop c its r2 w2))) \<le> 1"
        using Cons.prems by (intro Cons.IH) simp
      then show ?thesis
        using False p t a1 a2 inb
        by (auto simp: handle_recv_no_frames split: option.splits prod.splits)
    qed
  qed
qed

lemma handle_ping_no_timeout:
  assumes "handle_ping c now now' sj rnd w = (e, w', acts, rnd')"
    and "PING_INTERVAL c \<le> PING_TIMEOUT c" and "next_ping w \<le> max_pong w"
  shows "Reconnect_request \<notin> set acts" and "next_ping w' \<le> max_pong w'"
    and "reconnect_requested w' = reconnect_requested w"
  using assms
  by (auto simp: handle_ping_def send_ping Let_def split: if_splits)

lemma handle_topics_pings:
  assumes "handle_topics tok sj rnd w = (e, w', acts, rnd')"
  shows "next_ping w' = next_ping w" and "max_pong w' = max_pong w"
proof -
  let ?w0 = "w\<lparr>topics_changed := False\<rparr>"
  let ?cur = "remdups (map snd (topics ?w0))"
  obtain e1 w1 a1 r1 where r: "sync_removed tok sj rnd ?w0 ?cur = (e1, w1, a1, r1)"
    by (metis prod_cases4)
  obtain e2 w2 a2 r2 where a: "sync_added tok sj r1 w1 ?cur = (e2, w2, a2, r2)"
    by (metis prod_cases4)
  have res: "(e, w', acts, rnd') =
      (if \<not> topics_changed w then (None, w, [], rnd)
       else if e1 = None then (e2, w2, a1 @ a2, r2) else (e1, w1, a1, r1))"
    using assms r a by (auto simp: handle_topics_def Let_def split: option.splits)
  have "next_ping w1 = next_ping w \<and> max_pong w1 = max_pong w"
    using r by (auto simp: sync_removed_cases Let_def split: if_splits)
  moreover have "next_ping w2 = next_ping w1 \<and> max_pong w2 = max_pong w1"
    using a by (auto simp: sync_added_cases Let_def split: if_splits)
  ultimately show "next_ping w' = next_ping w" and "max_pong w' = max_pong w"
    using res by (auto split: if_splits)
qed

lemma steady_loop_no_timeout:
  assumes "PING_INTERVAL c \<le> PING_TIMEOUT c" and "next_ping w \<le> max_pong w"
    and "\<forall>i \<in> set its. inbound i = Frames []"
  shows "Reconnect_request \<notin> set (snd (snd (steady_loop c its rnd w)))"
  using assms(2,3)
proof (induction its arbitrary: rnd w)
  case Nil
  then show ?case by simp
next
  case (Cons i its)
  show ?case
  proof (cases "reconnect_requested w")
    case True
    then show ?thesis by simp
  next
    case False
    obtain e1 w1 a1 r1 where p: "handle_ping c (t_ping i) (t_reconnect i) (send_json i) rnd w = (e1, w1, a1, r1)"
      by (metis prod_cases4)
    obtain e2 w2 a2 r2 where t: "handle_topics (access_token i) (send_json i) r1 w1 = (e2, w2, a2, r2)"
      by (metis prod_cases4)
    note P = handle_ping_no_timeout [OF p assms(1) Cons.prems(1)]
      and T = handle_topics_state(8) [OF t] and T' = handle_topics_pings [OF t]
    have inb: "inbound i = Frames []" using Cons.prems by simp
    have "Reconnect_request \<notin> set (snd (snd (steady_loop c its r2 w2)))"
      using Cons.prems P(2) T' by (intro Cons.IH) simp_all
    then show ?thesis
      using False p t P(1) T inb
      by (auto simp: handle_recv_no_frames split: option.splits prod.splits)
  qed
qed

lemma ex_unsynced_eq:
  "ex_unsynced = (Websocket_init ex_constants 0 0)
     \<lparr>ws := True, topics_changed := True, topics := [(''A'', WebsocketTopic ''A'')]\<rparr>"
  by (simp add: ex_unsynced_def Websocket_add_topics_def ex_constants_def Websocket_init_def
      handle_connected_def)

lemma ex_synced_eq:
  "ex_synced = (Websocket_init ex_constants 0 0)
     \<lparr>ws := True, topics := [(''A'', WebsocketTopic ''A'')], submitted := [WebsocketTopic ''A'']\<rparr>"
  by (simp add: ex_synced_def ex_unsynced_eq handle_topics_def sync_removed_cases
      sync_added_cases Websocket_init_def)





lemma create_nonce_drawn: "create_nonce (drawn n rnd) m = map rnd [n..<n + m]"
  unfolding create_nonce_def drawn_def
  by (rule nth_equalityI) (simp_all add: add.commute)

section \<open>Placement and consolidation\<close>

lemma add_loop_fresh:
  assumes "distinct ts" and "\<forall>t \<in> set ts. str t \<notin> fst ` set tp"
  shows "add_loop n tp ts ch =
     (tp @ map (\<lambda>t. (str t, t)) (take (n - length tp) ts), drop (n - length tp) ts,
      ch \<or> (ts \<noteq> [] \<and> length tp < n))"
  using assms
proof (induction ts arbitrary: tp ch)
  case Nil
  then show ?case by simp
next
  case (Cons t ts)
  show ?case
  proof (cases "length tp < n")
    case True
    have fr: "str t \<notin> fst ` set tp" using Cons.prems(2) by simp
    have upd: "AList.update (str t) t tp = tp @ [(str t, t)]"
      using fr by (rule update_fresh)
    have d: "distinct ts" and nt: "t \<notin> set ts" using Cons.prems(1) by simp_all
    have fr': "\<forall>t' \<in> set ts. str t' \<notin> fst ` set (tp @ [(str t, t)])"
      using Cons.prems(2) nt by (auto simp: str_eq_iff)
    obtain m where m: "n - length tp = Suc m" using True by (metis Suc_diff_Suc)
    then have m': "n - length (tp @ [(str t, t)]) = m" by simp
    show ?thesis
      using True Cons.IH [OF d fr', of True] upd m m' by simp
  next
    case False
    then show ?thesis by simp
  qed
qed

lemma keyed_fresh_all:
  assumes "keyed_by_str tp" and "set ts \<inter> snd ` set tp = {}"
  shows "\<forall>t \<in> set ts. str t \<notin> fst ` set tp"
  using assms keyed_fresh by blast

lemma Websocket_add_topics_fresh:
  assumes "keyed_by_str (topics w)" and "distinct ts" and "set ts \<inter> snd ` set (topics w) = {}"
  shows "snd (Websocket_add_topics c w ts) = drop (WS_TOPICS_LIMIT c - length (topics w)) ts"
    and "topics (fst (Websocket_add_topics c w ts)) =
           topics w @ map (\<lambda>t. (str t, t)) (take (WS_TOPICS_LIMIT c - length (topics w)) ts)"
  using add_loop_fresh [OF assms(2) keyed_fresh_all [OF assms(1,3)], of "WS_TOPICS_LIMIT c" False]
  by (simp_all add: Websocket_add_topics_def)

lemma ws_add_topics [simp]: "ws (fst (Websocket_add_topics c w ts)) = ws w"
  by (simp add: Websocket_add_topics_def split: prod.splits)

lemma values_add_topics_fresh:
  assumes "keyed_by_str (topics w)" and "distinct ts" and "set ts \<inter> snd ` set (topics w) = {}"
  shows "map snd (topics (fst (Websocket_add_topics c w ts))) =
           map snd (topics w) @ take (WS_TOPICS_LIMIT c - length (topics w)) ts"
  by (simp add: Websocket_add_topics_fresh(2) [OF assms] comp_def)

lemma existing_topics_simps [simp]:
  "existing_topics [] = []"
  "existing_topics (w # wss) = map snd (topics w) @ existing_topics wss"
  "existing_topics (wss @ wss') = existing_topics wss @ existing_topics wss'"
  by (simp_all add: existing_topics_def)

lemma Websocket_add_topics_props:
  assumes a: "Websocket_add_topics c w ts = (w', rest)"
    and k: "keyed_by_str (topics w)" and d: "distinct ts"
    and f: "set ts \<inter> snd ` set (topics w) = {}"
  shows "mset (map snd (topics w')) + mset rest = mset (map snd (topics w)) + mset ts"
    and "keyed_by_str (topics w')"
    and "length (topics w) \<le> WS_TOPICS_LIMIT c \<Longrightarrow> length (topics w') \<le> WS_TOPICS_LIMIT c"
    and "rest \<noteq> [] \<Longrightarrow> WS_TOPICS_LIMIT c \<le> length (topics w')"
    and "distinct rest" and "set rest \<subseteq> set ts"
    and "ws w' = ws w" and "idx w' = idx w"
    and "length (topics w') + length rest = length (topics w) + length ts"
proof -
  let ?k = "WS_TOPICS_LIMIT c - length (topics w)"
  have w': "w' = fst (Websocket_add_topics c w ts)" and r: "rest = snd (Websocket_add_topics c w ts)"
    using a by simp_all
  have rest: "rest = drop ?k ts"
    using r Websocket_add_topics_fresh(1) [OF k d f] by simp
  have tp: "topics w' = topics w @ map (\<lambda>t. (str t, t)) (take ?k ts)"
    using w' Websocket_add_topics_fresh(2) [OF k d f] by simp
  have vals: "map snd (topics w') = map snd (topics w) @ take ?k ts"
    using tp by (simp add: comp_def)
  have "mset (take ?k ts) + mset (drop ?k ts) = mset ts"
    by (metis append_take_drop_id mset_append)
  then show "mset (map snd (topics w')) + mset rest = mset (map snd (topics w)) + mset ts"
    using vals rest by (simp add: ac_simps)
  show "keyed_by_str (topics w')"
    using k tp by (auto simp: keyed_by_str_iff)
  show "length (topics w') \<le> WS_TOPICS_LIMIT c" if "length (topics w) \<le> WS_TOPICS_LIMIT c"
    using that tp by simp
  show "WS_TOPICS_LIMIT c \<le> length (topics w')" if "rest \<noteq> []"
    using that tp rest by simp
  show "distinct rest" using rest d by simp
  show "set rest \<subseteq> set ts" using rest by (simp add: set_drop_subset)
  show "ws w' = ws w" using w' by simp
  show "idx w' = idx w" using w' by (simp add: Websocket_add_topics_def split: prod.splits)
  show "length (topics w') + length rest = length (topics w) + length ts"
    using tp rest by simp
qed

lemma fill_loop_props:
  assumes "fill_loop c wss ts = (r, wss', rest)"
    and "distinct ts" and "set ts \<inter> set (existing_topics wss) = {}"
    and "\<forall>w \<in> set wss. keyed_by_str (topics w)"
  shows "mset (existing_topics wss') + mset rest = mset (existing_topics wss) + mset ts
    \<and> length wss' = length wss
    \<and> (\<forall>w \<in> set wss'. keyed_by_str (topics w))
    \<and> ((\<forall>w \<in> set wss. length (topics w) \<le> WS_TOPICS_LIMIT c) \<longrightarrow>
          (\<forall>w \<in> set wss'. length (topics w) \<le> WS_TOPICS_LIMIT c))
    \<and> map ws wss' = map ws wss
    \<and> distinct rest \<and> set rest \<subseteq> set ts
    \<and> (r \<longrightarrow> rest = [])
    \<and> (ts \<noteq> [] \<and> rest = [] \<longrightarrow> r)
    \<and> ((\<forall>w \<in> set wss. ws w) \<and> \<not> r \<longrightarrow>
          (\<forall>w \<in> set wss'. WS_TOPICS_LIMIT c \<le> length (topics w)))"
  using assms
proof (induction wss arbitrary: ts r wss' rest)
  case Nil
  then show ?case by auto
next
  case (Cons w wss)
  have kw: "keyed_by_str (topics w)" and kws: "\<forall>w \<in> set wss. keyed_by_str (topics w)"
    using Cons.prems(4) by simp_all
  have fw: "set ts \<inter> snd ` set (topics w) = {}" and fws: "set ts \<inter> set (existing_topics wss) = {}"
    using Cons.prems(3) by auto
  show ?case
  proof (cases "ws w \<and> length (topics w) < WS_TOPICS_LIMIT c")
    case True
    obtain w1 rest1 where a: "Websocket_add_topics c w ts = (w1, rest1)" by (metis surj_pair)
    note A = Websocket_add_topics_props [OF a kw Cons.prems(2) fw]
    show ?thesis
    proof (cases "rest1 = []")
      case e: True
      with True a Cons.prems(1) have res: "r" "wss' = w1 # wss" "rest = []" by auto
      show ?thesis
        using res A e kws by (auto simp: ac_simps)
    next
      case ne: False
      obtain r2 wss2 rest2 where f: "fill_loop c wss rest1 = (r2, wss2, rest2)" by (metis prod_cases3)
      with True a ne Cons.prems(1) have res: "r = r2" "wss' = w1 # wss2" "rest = rest2" by auto
      have fr: "set rest1 \<inter> set (existing_topics wss) = {}" using fws A(6) by auto
      note IH = Cons.IH [OF f A(5) fr kws]
      have m: "mset (existing_topics wss') + mset rest = mset (existing_topics (w # wss)) + mset ts"
      proof -
        have "mset (existing_topics wss') + mset rest =
              mset (map snd (topics w1)) + (mset (existing_topics wss2) + mset rest2)"
          using res by (simp add: ac_simps)
        also have "\<dots> = mset (map snd (topics w1)) + (mset (existing_topics wss) + mset rest1)"
          using IH by simp
        also have "\<dots> = (mset (map snd (topics w1)) + mset rest1) + mset (existing_topics wss)"
          by (simp add: ac_simps)
        also have "\<dots> = (mset (map snd (topics w)) + mset ts) + mset (existing_topics wss)"
          using A(1) by simp
        finally show ?thesis by (simp add: ac_simps)
      qed
      have full: "WS_TOPICS_LIMIT c \<le> length (topics w1)" using A(4) ne by simp
      show ?thesis
        using m res IH A(2,3,5,6,7) True ne full by auto
    qed
  next
    case False
    obtain r2 wss2 rest2 where f: "fill_loop c wss ts = (r2, wss2, rest2)" by (metis prod_cases3)
    with False Cons.prems(1) have res: "r = r2" "wss' = w # wss2" "rest = rest2" by auto
    note IH = Cons.IH [OF f Cons.prems(2) fws kws]
    have m: "mset (existing_topics wss') + mset rest = mset (existing_topics (w # wss)) + mset ts"
      using res IH by (simp add: ac_simps)
    show ?thesis
      using m res IH kw False by auto
  qed
qed

lemma topics_new [simp]:
  "topics (Websocket_init c now i) = []" "topics (start_nowait w) = topics w"
  by (simp_all add: Websocket_init_def start_nowait_def)

lemma create_loop_props:
  assumes "create_loop c clock idxs p ts = (e, p', rest)"
    and "distinct ts" and "set ts \<inter> set (existing_topics (websockets p)) = {}"
  shows "mset (existing_topics (websockets p')) + mset rest =
           mset (existing_topics (websockets p)) + mset ts
    \<and> (\<exists>new. websockets p' = websockets p @ new \<and> length new \<le> length idxs
          \<and> (e \<noteq> None \<longrightarrow> length new = length idxs)
          \<and> (\<forall>w \<in> set new. keyed_by_str (topics w) \<and> length (topics w) \<le> WS_TOPICS_LIMIT c
                \<and> (e \<noteq> None \<longrightarrow> WS_TOPICS_LIMIT c \<le> length (topics w))))
    \<and> running p' = running p
    \<and> (e = None \<or> e = Some MinerException)
    \<and> (e = None \<longrightarrow> rest = [])
    \<and> (ts \<noteq> [] \<and> rest = [] \<longrightarrow> e = None)
    \<and> distinct rest \<and> set rest \<subseteq> set ts"
  using assms
proof (induction idxs arbitrary: p ts e p' rest)
  case Nil
  then show ?case by auto
next
  case (Cons i idxs)
  let ?w0 = "Websocket_init c (clock i) i"
  let ?w1 = "if running p then start_nowait ?w0 else ?w0"
  have t1: "topics ?w1 = []" by simp
  obtain w2 rest1 where a: "Websocket_add_topics c ?w1 ts = (w2, rest1)" by (metis surj_pair)
  have k1: "keyed_by_str (topics ?w1)" using t1 by (simp add: keyed_by_str_def)
  have f1: "set ts \<inter> snd ` set (topics ?w1) = {}" using t1 by simp
  note A = Websocket_add_topics_props [OF a k1 Cons.prems(2) f1]
  have len: "length (topics w2) \<le> WS_TOPICS_LIMIT c" using A(3) t1 by simp
  let ?p1 = "p\<lparr>websockets := websockets p @ [w2], connection_count := connection_count p + 1\<rparr>"
  have m1: "mset (existing_topics (websockets ?p1)) + mset rest1 =
            mset (existing_topics (websockets p)) + mset ts"
    using A(1) t1 by (simp add: ac_simps)
  show ?case
  proof (cases "rest1 = []")
    case True
    with a Cons.prems(1) have res: "e = None" "p' = ?p1" "rest = []"
      by (auto simp: Let_def)
    have "websockets p' = websockets p @ [w2]" using res by simp
    then show ?thesis
      using res m1 True A(2) len by auto
  next
    case False
    with a Cons.prems(1) have c: "create_loop c clock idxs ?p1 rest1 = (e, p', rest)"
      by (auto simp: Let_def)
    have fr: "set rest1 \<inter> set (existing_topics (websockets ?p1)) = {}"
    proof -
      have "set rest1 \<inter> set (existing_topics (websockets p)) = {}"
        using A(6) Cons.prems(3) by auto
      moreover have "set rest1 \<inter> set (map snd (topics w2)) = {}"
      proof -
        have "distinct (map snd (topics w2) @ rest1)"
        proof -
          have "mset (map snd (topics w2) @ rest1) = mset ts" using A(1) t1 by simp
          then show ?thesis using Cons.prems(2) by (metis mset_eq_imp_distinct_iff)
        qed
        then show ?thesis by auto
      qed
      ultimately show ?thesis by auto
    qed
    note IH = Cons.IH [OF c A(5) fr]
    from IH obtain new where new: "websockets p' = websockets ?p1 @ new" "length new \<le> length idxs"
      "e \<noteq> None \<longrightarrow> length new = length idxs"
      "\<forall>w \<in> set new. keyed_by_str (topics w) \<and> length (topics w) \<le> WS_TOPICS_LIMIT c
                \<and> (e \<noteq> None \<longrightarrow> WS_TOPICS_LIMIT c \<le> length (topics w))"
      by blast
    have full: "WS_TOPICS_LIMIT c \<le> length (topics w2)" using A(4) False by simp
    have ex: "\<exists>new. websockets p' = websockets p @ new \<and> length new \<le> length (i # idxs)
          \<and> (e \<noteq> None \<longrightarrow> length new = length (i # idxs))
          \<and> (\<forall>w \<in> set new. keyed_by_str (topics w) \<and> length (topics w) \<le> WS_TOPICS_LIMIT c
                \<and> (e \<noteq> None \<longrightarrow> WS_TOPICS_LIMIT c \<le> length (topics w)))"
      using new A(2) len full by (intro exI [of _ "w2 # new"]) auto
    have m: "mset (existing_topics (websockets p')) + mset rest =
           mset (existing_topics (websockets p)) + mset ts"
      using IH m1 by simp
    have "ts \<noteq> []" using False A(6) by auto
    then show ?thesis
      using ex m IH A(6) False by auto
  qed
qed

lemma pool_inv_iff:
  "pool_inv c p \<longleftrightarrow>
     distinct (existing_topics (websockets p)) \<and>
     (\<forall>w \<in> set (websockets p). keyed_by_str (topics w) \<and> length (topics w) \<le> WS_TOPICS_LIMIT c) \<and>
     length (websockets p) \<le> MAX_WEBSOCKETS c"
  by (simp add: pool_inv_def list_all_iff)

lemma length_existing_topics:
  "length (existing_topics wss) = sum_list (map (\<lambda>w. length (topics w)) wss)"
  by (induction wss) simp_all

lemma total_topics_existing: "total_topics p = length (existing_topics (websockets p))"
  by (simp add: total_topics_def length_existing_topics)

lemma sum_list_bounds:
  "(\<forall>w \<in> set wss. f w \<le> (n::nat)) \<Longrightarrow> sum_list (map f wss) \<le> length wss * n"
  "(\<forall>w \<in> set wss. n \<le> f w) \<Longrightarrow> length wss * n \<le> sum_list (map f wss)"
  by (induction wss) auto

lemma pool_inv_total:
  assumes "pool_inv c p"
  shows "total_topics p \<le> MAX_WEBSOCKETS c * WS_TOPICS_LIMIT c"
proof -
  have "total_topics p \<le> length (websockets p) * WS_TOPICS_LIMIT c"
    unfolding total_topics_def using assms by (intro sum_list_bounds(1)) (simp add: pool_inv_iff)
  also have "\<dots> \<le> MAX_WEBSOCKETS c * WS_TOPICS_LIMIT c"
    using assms by (simp add: pool_inv_iff)
  finally show ?thesis .
qed

lemma new_topics_props:
  "distinct (new_topics p ts)" "set (new_topics p ts) \<inter> set (existing_topics (websockets p)) = {}"
  "set (new_topics p ts) = set ts - set (existing_topics (websockets p))"
  by (auto simp: new_topics_def)

lemma pool_add_unfold:
  "WebsocketPool_add_topics c clock p ts =
     (if new_topics p ts = [] then (None, p)
      else (case fill_loop c (websockets p) (new_topics p ts) of
              (returned, wss, rest) \<Rightarrow>
                if returned then (None, p\<lparr>websockets := wss\<rparr>)
                else (case create_loop c clock [length wss ..< MAX_WEBSOCKETS c]
                             (p\<lparr>websockets := wss\<rparr>) rest of
                        (e, p', rest') \<Rightarrow> (e, p'))))"
  by (simp add: WebsocketPool_add_topics_def new_topics_def Let_def)

lemma pool_add_props:
  assumes inv: "pool_inv c p" and add: "WebsocketPool_add_topics c clock p ts = (e, p')"
  shows "pool_inv c p'
    \<and> (\<exists>rest. mset (existing_topics (websockets p')) + mset rest =
                mset (existing_topics (websockets p)) + mset (new_topics p ts)
              \<and> set rest \<subseteq> set (new_topics p ts)
              \<and> (e = None \<longleftrightarrow> rest = []))
    \<and> (e = None \<or> e = Some MinerException)
    \<and> (e \<noteq> None \<longrightarrow> length (websockets p') = MAX_WEBSOCKETS c)
    \<and> running p' = running p
    \<and> length (websockets p) \<le> length (websockets p')
    \<and> ((\<forall>w \<in> set (websockets p). ws w) \<longrightarrow>
          (e \<noteq> None \<longrightarrow> (\<forall>w \<in> set (websockets p'). WS_TOPICS_LIMIT c \<le> length (topics w))) \<and>
          (length (websockets p) * WS_TOPICS_LIMIT c \<ge> total_topics p + length (new_topics p ts)
             \<longrightarrow> e = None \<and> length (websockets p') = length (websockets p)))
    \<and> (length (new_topics p ts) \<le> (MAX_WEBSOCKETS c - length (websockets p)) * WS_TOPICS_LIMIT c
          \<longrightarrow> e = None)"
proof (cases "new_topics p ts = []")
  case True
  with add have "e = None" "p' = p" by (simp_all add: pool_add_unfold)
  with inv True show ?thesis by auto
next
  case False
  let ?new = "new_topics p ts"
  note N = new_topics_props [of p ts]
  have I: "distinct (existing_topics (websockets p))"
    "\<forall>w \<in> set (websockets p). keyed_by_str (topics w)"
    "\<forall>w \<in> set (websockets p). length (topics w) \<le> WS_TOPICS_LIMIT c"
    "length (websockets p) \<le> MAX_WEBSOCKETS c"
    using inv by (simp_all add: pool_inv_iff)
  obtain r wss rest where f: "fill_loop c (websockets p) ?new = (r, wss, rest)"
    by (metis prod_cases3)
  note F = fill_loop_props [OF f N(1,2) I(2)]
  have d0: "distinct (existing_topics (websockets p) @ ?new)"
    using I(1) N(1,2) by auto
  have dF: "distinct (existing_topics wss @ rest)"
  proof -
    have "mset (existing_topics wss @ rest) = mset (existing_topics (websockets p) @ ?new)"
      using F by simp
    then show ?thesis using d0 by (metis mset_eq_imp_distinct_iff)
  qed
  show ?thesis
  proof (cases r)
    case True
    with add False f have res: "e = None" "p' = p\<lparr>websockets := wss\<rparr>"
      by (simp_all add: pool_add_unfold)
    have "rest = []" using F True by simp
    moreover have "pool_inv c p'"
      using res dF F I by (auto simp: pool_inv_iff)
    ultimately show ?thesis
      using res F by auto
  next
    case nr: False
    let ?p1 = "p\<lparr>websockets := wss\<rparr>"
    let ?idxs = "[length wss ..< MAX_WEBSOCKETS c]"
    obtain e2 p2 rest2 where c: "create_loop c clock ?idxs ?p1 rest = (e2, p2, rest2)"
      by (metis prod_cases3)
    with add False f nr have res: "e = e2" "p' = p2"
      by (simp_all add: pool_add_unfold)
    have rne: "rest \<noteq> []" using F nr False by auto
    have fr: "set rest \<inter> set (existing_topics (websockets ?p1)) = {}"
      using dF by auto
    have dr: "distinct rest" using F by simp
    note C = create_loop_props [OF c dr fr]
    from C obtain new where new: "websockets p2 = wss @ new" "length new \<le> length ?idxs"
      "e2 \<noteq> None \<longrightarrow> length new = length ?idxs"
      "\<forall>w \<in> set new. keyed_by_str (topics w) \<and> length (topics w) \<le> WS_TOPICS_LIMIT c
                \<and> (e2 \<noteq> None \<longrightarrow> WS_TOPICS_LIMIT c \<le> length (topics w))"
      by auto
    have lw: "length wss = length (websockets p)" using F by simp
    have m: "mset (existing_topics (websockets p2)) + mset rest2 =
             mset (existing_topics (websockets p)) + mset ?new"
      using C F by simp
    have d2: "distinct (existing_topics (websockets p2))"
    proof -
      have "mset (existing_topics (websockets p2) @ rest2) = mset (existing_topics (websockets p) @ ?new)"
        using m by simp
      then have "distinct (existing_topics (websockets p2) @ rest2)"
        using d0 by (metis mset_eq_imp_distinct_iff)
      then show ?thesis by simp
    qed
    have inv2: "pool_inv c p2"
      using d2 new F I lw by (auto simp: pool_inv_iff)
    have e2: "e2 = None \<longleftrightarrow> rest2 = []" using C rne by auto
    have len: "e2 \<noteq> None \<longrightarrow> length (websockets p2) = MAX_WEBSOCKETS c"
      using new lw I(4) by auto
    have full: "(\<forall>w \<in> set (websockets p). ws w) \<longrightarrow> e2 \<noteq> None \<longrightarrow>
          (\<forall>w \<in> set (websockets p2). WS_TOPICS_LIMIT c \<le> length (topics w))"
      using F nr new by auto
    have fit: "(\<forall>w \<in> set (websockets p). ws w) \<longrightarrow>
        length (websockets p) * WS_TOPICS_LIMIT c \<ge> total_topics p + length ?new \<longrightarrow> False"
    proof (intro impI)
      assume conn: "\<forall>w \<in> set (websockets p). ws w"
        and cap: "length (websockets p) * WS_TOPICS_LIMIT c \<ge> total_topics p + length ?new"
      have "\<forall>w \<in> set wss. WS_TOPICS_LIMIT c \<le> length (topics w)" using F nr conn by auto
      then have "length wss * WS_TOPICS_LIMIT c \<le> length (existing_topics wss)"
        unfolding length_existing_topics by (rule sum_list_bounds(2))
      then have "length (websockets p) * WS_TOPICS_LIMIT c \<le> length (existing_topics wss)"
        using lw by simp
      moreover have "length (existing_topics wss) + length rest =
          length (existing_topics (websockets p)) + length ?new"
      proof -
        have "mset (existing_topics wss) + mset rest =
            mset (existing_topics (websockets p)) + mset ?new"
          using F by simp
        then have "size (mset (existing_topics wss) + mset rest) =
            size (mset (existing_topics (websockets p)) + mset ?new)"
          by simp
        then show ?thesis by simp
      qed
      moreover have "0 < length rest" using rne by simp
      ultimately show False
        using cap unfolding total_topics_existing by linarith
    qed
    have 1: "pool_inv c p'" using inv2 res by simp
    have sr: "set rest2 \<subseteq> set (new_topics p ts)" using C F by auto
    have 2: "\<exists>rest. mset (existing_topics (websockets p')) + mset rest =
                mset (existing_topics (websockets p)) + mset (new_topics p ts)
              \<and> set rest \<subseteq> set (new_topics p ts)
              \<and> (e = None \<longleftrightarrow> rest = [])"
      using m e2 sr res by (intro exI [of _ rest2]) simp
    have 3: "e = None \<or> e = Some MinerException" using C res by simp
    have 4: "e \<noteq> None \<longrightarrow> length (websockets p') = MAX_WEBSOCKETS c" using len res by simp
    have 5: "running p' = running p" using C res by simp
    have 6: "length (websockets p) \<le> length (websockets p')" using new(1) lw res by simp
    have 7: "(\<forall>w \<in> set (websockets p). ws w) \<longrightarrow>
          (e \<noteq> None \<longrightarrow> (\<forall>w \<in> set (websockets p'). WS_TOPICS_LIMIT c \<le> length (topics w))) \<and>
          (length (websockets p) * WS_TOPICS_LIMIT c \<ge> total_topics p + length (new_topics p ts)
             \<longrightarrow> e = None \<and> length (websockets p') = length (websockets p))"
      using full fit res by blast
    have 8: "length (new_topics p ts) \<le> (MAX_WEBSOCKETS c - length (websockets p)) * WS_TOPICS_LIMIT c
          \<longrightarrow> e = None"
    proof (intro impI, rule ccontr)
      assume cap: "length (new_topics p ts) \<le> (MAX_WEBSOCKETS c - length (websockets p)) * WS_TOPICS_LIMIT c"
        and ne: "e \<noteq> None"
      from ne res have ne2: "e2 \<noteq> None" by simp
      have ln: "length new = MAX_WEBSOCKETS c - length (websockets p)"
        using new(3) ne2 lw by simp
      have "\<forall>w \<in> set new. WS_TOPICS_LIMIT c \<le> length (topics w)" using new(4) ne2 by simp
      then have "length new * WS_TOPICS_LIMIT c \<le> length (existing_topics new)"
        unfolding length_existing_topics by (rule sum_list_bounds(2))
      then have a: "(MAX_WEBSOCKETS c - length (websockets p)) * WS_TOPICS_LIMIT c
          \<le> length (existing_topics new)"
        using ln by simp
      have "mset (existing_topics (websockets p2)) + mset rest2 =
          mset (existing_topics wss) + mset rest"
        using C by simp
      then have "mset (existing_topics new) + mset rest2 = mset rest"
        using new(1) by simp
      then have "size (mset (existing_topics new) + mset rest2) = size (mset rest)" by simp
      then have b: "length (existing_topics new) + length rest2 = length rest" by simp
      have "length rest \<le> length (new_topics p ts)"
      proof -
        have "card (set rest) \<le> card (set (new_topics p ts))"
          using F by (intro card_mono) simp_all
        then show ?thesis using dr N(1) by (simp add: distinct_card)
      qed
      moreover have "0 < length rest2" using e2 ne2 by simp
      ultimately show False using a b cap by linarith
    qed
    from 1 2 3 4 5 6 7 8 show ?thesis by (intro conjI)
  qed
qed

lemma keys_values: "keyed_by_str (topics w) \<Longrightarrow> str t \<in> keys w \<longleftrightarrow> t \<in> snd ` set (topics w)"
  unfolding keys_def by (simp add: keyed_keys inj_image_mem_iff [OF inj_str])

lemma distinct_concat_disjoint:
  assumes "distinct (concat xss)" and "i < j" and "j < length xss"
  shows "set (xss ! i) \<inter> set (xss ! j) = {}"
  using assms
proof (induction xss arbitrary: i j)
  case Nil
  then show ?case by simp
next
  case (Cons xs xss)
  show ?case
  proof (cases i)
    case 0
    with Cons.prems obtain j' where j: "j = Suc j'" "j' < length xss"
      by (cases j) auto
    then have "xss ! j' \<in> set xss" by simp
    then have "set (xss ! j') \<subseteq> set (concat xss)" by auto
    with Cons.prems(1) 0 j show ?thesis by auto
  next
    case (Suc i')
    with Cons.prems obtain j' where j: "j = Suc j'" "i' < j'" "j' < length xss"
      by (cases j) auto
    with Cons.IH [of i' j'] Cons.prems(1) Suc show ?thesis by simp
  qed
qed

lemma pool_inv_no_shared_key:
  assumes "pool_inv c p"
  shows "no_shared_key p"
  unfolding no_shared_key_def
proof (intro allI impI)
  fix i j
  assume ij: "i < length (websockets p)" "j < length (websockets p)" "i \<noteq> j"
  let ?xss = "map (\<lambda>w. map snd (topics w)) (websockets p)"
  have d: "distinct (concat ?xss)"
    using assms by (simp add: pool_inv_iff existing_topics_def)
  have k: "keyed_by_str (topics (websockets p ! i))" "keyed_by_str (topics (websockets p ! j))"
    using assms ij by (simp_all add: pool_inv_iff)
  have "set (?xss ! i) \<inter> set (?xss ! j) = {}"
  proof (cases "i < j")
    case True
    then show ?thesis using distinct_concat_disjoint [OF d, of i j] ij by simp
  next
    case False
    then have "j < i" using ij by simp
    then show ?thesis using distinct_concat_disjoint [OF d, of j i] ij by auto
  qed
  then have v: "snd ` set (topics (websockets p ! i)) \<inter> snd ` set (topics (websockets p ! j)) = {}"
    using ij by simp
  show "keys (websockets p ! i) \<inter> keys (websockets p ! j) = {}"
  proof (rule ccontr)
    assume "keys (websockets p ! i) \<inter> keys (websockets p ! j) \<noteq> {}"
    then obtain s where s: "s \<in> keys (websockets p ! i)" "s \<in> keys (websockets p ! j)" by auto
    have "WebsocketTopic s \<in> snd ` set (topics (websockets p ! i))"
      using s(1) keys_values [OF k(1), of "WebsocketTopic s"] by simp
    moreover have "WebsocketTopic s \<in> snd ` set (topics (websockets p ! j))"
      using s(2) keys_values [OF k(2), of "WebsocketTopic s"] by simp
    ultimately show False using v by auto
  qed
qed

lemma length_filter_nth:
  "length (filter (\<lambda>i. Q (xs ! i)) [0..<length xs]) = length (filter Q xs)"
proof -
  have "filter Q xs = filter Q (map (nth xs) [0..<length xs])" by (simp add: map_nth)
  also have "\<dots> = map (nth xs) (filter (\<lambda>i. Q (xs ! i)) [0..<length xs])"
    by (simp add: filter_map comp_def)
  finally show ?thesis by (metis length_map)
qed

lemma holders_count:
  assumes "distinct (existing_topics wss)" and "\<forall>w \<in> set wss. keyed_by_str (topics w)"
  shows "length (filter (\<lambda>w. str t \<in> keys w) wss) = (if t \<in> set (existing_topics wss) then 1 else 0)"
  using assms
proof (induction wss)
  case Nil
  then show ?case by simp
next
  case (Cons w wss)
  have kv: "str t \<in> keys w \<longleftrightarrow> t \<in> snd ` set (topics w)"
    using Cons.prems(2) by (simp add: keys_values)
  have dis: "snd ` set (topics w) \<inter> set (existing_topics wss) = {}"
    using Cons.prems(1) by auto
  have IH: "length (filter (\<lambda>w. str t \<in> keys w) wss) = (if t \<in> set (existing_topics wss) then 1 else 0)"
    using Cons by simp
  show ?case
    using kv dis IH by auto
qed

lemma assigned_once:
  assumes "pool_inv c p"
  shows "length (assigned_at p t) = (if t \<in> set (existing_topics (websockets p)) then 1 else 0)"
proof -
  have "length (assigned_at p t) = length (filter (\<lambda>w. str t \<in> keys w) (websockets p))"
    unfolding assigned_at_def by (rule length_filter_nth)
  then show ?thesis
    using holders_count [of "websockets p" t] assms by (simp add: pool_inv_iff)
qed

lemma pool_add_assigned:
  assumes inv: "pool_inv c p" and add: "WebsocketPool_add_topics c clock p ts = (e, p')"
  shows "set (existing_topics (websockets p)) \<subseteq> set (existing_topics (websockets p'))"
    and "set (existing_topics (websockets p')) \<subseteq> set (existing_topics (websockets p)) \<union> set ts"
    and "e = None \<Longrightarrow> set ts \<subseteq> set (existing_topics (websockets p'))"
    and "e \<noteq> None \<Longrightarrow> \<not> set ts \<subseteq> set (existing_topics (websockets p'))"
proof -
  from pool_add_props [OF inv add] obtain rest where
    m: "mset (existing_topics (websockets p')) + mset rest =
        mset (existing_topics (websockets p)) + mset (new_topics p ts)"
    and sr: "set rest \<subseteq> set (new_topics p ts)"
    and e: "e = None \<longleftrightarrow> rest = []" and inv': "pool_inv c p'"
    by blast
  have s: "set (existing_topics (websockets p')) \<union> set rest =
      set (existing_topics (websockets p)) \<union> (set ts - set (existing_topics (websockets p)))"
    using m new_topics_props(3) [of p ts] by (metis set_mset_mset set_mset_union)
  have d: "distinct (existing_topics (websockets p') @ rest)"
  proof -
    have "distinct (existing_topics (websockets p) @ new_topics p ts)"
      using inv new_topics_props(1,2) [of p ts] by (auto simp: pool_inv_iff)
    moreover have "mset (existing_topics (websockets p') @ rest) =
        mset (existing_topics (websockets p) @ new_topics p ts)"
      using m by simp
    ultimately show ?thesis by (metis mset_eq_imp_distinct_iff)
  qed
  have sub: "set (existing_topics (websockets p)) \<subseteq> set (existing_topics (websockets p'))"
  proof
    fix t assume t: "t \<in> set (existing_topics (websockets p))"
    then have "t \<notin> set rest" using sr new_topics_props(2) [of p ts] by auto
    moreover have "t \<in> set (existing_topics (websockets p')) \<union> set rest" using s t by auto
    ultimately show "t \<in> set (existing_topics (websockets p'))" by auto
  qed
  show "set (existing_topics (websockets p)) \<subseteq> set (existing_topics (websockets p'))" by (rule sub)
  show "set (existing_topics (websockets p')) \<subseteq> set (existing_topics (websockets p)) \<union> set ts"
    using s by auto
  show "set ts \<subseteq> set (existing_topics (websockets p'))" if "e = None"
    using that e s by auto
  show "\<not> set ts \<subseteq> set (existing_topics (websockets p'))" if "e \<noteq> None"
  proof -
    from that e obtain t where t: "t \<in> set rest" by (cases rest) auto
    then have "t \<notin> set (existing_topics (websockets p'))" using d by auto
    moreover have "t \<in> set ts" using t s d sub by auto
    ultimately show ?thesis by auto
  qed
qed

lemma snd_remove_topics:
  "snd (Websocket_remove_topics w ks) = filter (\<lambda>k. k \<notin> keys w) ks"
proof -
  let ?ex = "filter (\<lambda>k. k \<in> fst ` set (topics w)) ks"
  have "filter (\<lambda>k. k \<notin> set ?ex) ks = filter (\<lambda>k. k \<notin> keys w) ks"
    by (rule filter_cong) (auto simp: keys_def)
  moreover have "?ex = [] \<Longrightarrow> filter (\<lambda>k. k \<notin> keys w) ks = ks"
    by (auto simp: filter_empty_conv filter_id_conv keys_def)
  ultimately show ?thesis
    by (simp add: Websocket_remove_topics_def Let_def)
qed

lemma remove_topics_cong:
  assumes "filter (\<lambda>k. k \<in> keys w) ks = filter (\<lambda>k. k \<in> keys w) ks'"
  shows "fst (Websocket_remove_topics w ks) = fst (Websocket_remove_topics w ks')"
  using assms by (simp add: Websocket_remove_topics_def Let_def keys_def)

lemma all_keys_simps [simp]:
  "all_keys [] = []" "all_keys (w # wss) = map fst (topics w) @ all_keys wss"
  by (simp_all add: all_keys_def)

lemma keyed_map_fst: "keyed_by_str tp \<Longrightarrow> map fst tp = map str (map snd tp)"
  by (induction tp) (auto simp: keyed_by_str_iff)

lemma all_keys_existing:
  "\<forall>w \<in> set wss. keyed_by_str (topics w) \<Longrightarrow> all_keys wss = map str (existing_topics wss)"
  by (induction wss) (simp_all add: keyed_map_fst)

lemma pool_inv_distinct_keys:
  assumes "pool_inv c p"
  shows "distinct (all_keys (websockets p))"
proof -
  have "all_keys (websockets p) = map str (existing_topics (websockets p))"
    using assms by (intro all_keys_existing) (simp add: pool_inv_iff)
  moreover have "distinct (map str (existing_topics (websockets p)))"
    using assms by (simp add: distinct_map pool_inv_iff inj_on_def str_eq_iff)
  ultimately show ?thesis by simp
qed

lemma fst_remove_loop_Cons:
  "fst (remove_loop (w # wss) ks) =
     fst (Websocket_remove_topics w ks) # fst (remove_loop wss (snd (Websocket_remove_topics w ks)))"
  by (simp split: prod.splits)

lemma remove_loop_exact:
  assumes "distinct (all_keys wss)"
  shows "fst (remove_loop wss ks) = map (\<lambda>w. fst (Websocket_remove_topics w ks)) wss"
  using assms
proof (induction wss arbitrary: ks)
  case Nil
  then show ?case by simp
next
  case (Cons w wss)
  let ?rest = "snd (Websocket_remove_topics w ks)"
  have d: "distinct (all_keys wss)" and dis: "keys w \<inter> set (all_keys wss) = {}"
    using Cons.prems by (auto simp: keys_def)
  have IH: "fst (remove_loop wss ?rest) = map (\<lambda>w. fst (Websocket_remove_topics w ?rest)) wss"
    by (rule Cons.IH [OF d])
  have "fst (Websocket_remove_topics v ?rest) = fst (Websocket_remove_topics v ks)"
    if v: "v \<in> set wss" for v
  proof (rule remove_topics_cong)
    have "keys v \<subseteq> set (all_keys wss)" using v by (auto simp: keys_def all_keys_def)
    then have "keys v \<inter> keys w = {}" using dis by auto
    then show "filter (\<lambda>k. k \<in> keys v) ?rest = filter (\<lambda>k. k \<in> keys v) ks"
      unfolding snd_remove_topics filter_filter by (intro filter_cong) auto
  qed
  then have "map (\<lambda>w. fst (Websocket_remove_topics w ?rest)) wss =
      map (\<lambda>w. fst (Websocket_remove_topics w ks)) wss"
    by simp
  then show ?case
    unfolding fst_remove_loop_Cons using IH by simp
qed

lemma existing_topics_removed:
  assumes "\<forall>w \<in> set wss. keyed_by_str (topics w)"
  shows "existing_topics (map (\<lambda>w. fst (Websocket_remove_topics w ks)) wss) =
      filter (\<lambda>t. str t \<notin> set ks) (existing_topics wss)"
  using assms
proof (induction wss)
  case Nil
  then show ?case by simp
next
  case (Cons w wss)
  have "map snd (filter (\<lambda>e. fst e \<notin> set ks) (topics w)) =
      filter (\<lambda>t. str t \<notin> set ks) (map snd (topics w))"
    using Cons.prems unfolding filter_map comp_def
    by (intro arg_cong [where f = "map snd"] filter_cong) (auto simp: keyed_by_str_iff)
  then show ?case
    using Cons by (simp add: topics_remove_topics)
qed

lemma removed_props:
  "ws (fst (Websocket_remove_topics w ks)) = ws w"
  "idx (fst (Websocket_remove_topics w ks)) = idx w"
  "keyed_by_str (topics w) \<Longrightarrow> keyed_by_str (topics (fst (Websocket_remove_topics w ks)))"
  "length (topics (fst (Websocket_remove_topics w ks))) \<le> length (topics w)"
  by (simp_all add: topics_remove_topics keyed_by_str_filter)
     (simp_all add: Websocket_remove_topics_def Let_def)

lemma pool_remove_unfold:
  assumes "pool_inv c p"
  shows "WebsocketPool_remove_topics c p ks =
     (if ks = [] then (None, p, []) else optimize_pool c (removed p (remdups ks)))"
proof -
  have "fst (remove_loop (websockets p) (remdups ks)) =
      map (\<lambda>w. fst (Websocket_remove_topics w (remdups ks))) (websockets p)"
    using pool_inv_distinct_keys [OF assms] by (rule remove_loop_exact)
  then show ?thesis
    by (auto simp: WebsocketPool_remove_topics_def removed_def Let_def split: prod.splits)
qed

lemma removed_inv:
  assumes "pool_inv c p"
  shows "pool_inv c (removed p ks)"
    and "existing_topics (websockets (removed p ks)) =
          filter (\<lambda>t. str t \<notin> set ks) (existing_topics (websockets p))"
    and "length (websockets (removed p ks)) = length (websockets p)"
    and "map ws (websockets (removed p ks)) = map ws (websockets p)"
proof -
  have k: "\<forall>w \<in> set (websockets p). keyed_by_str (topics w)"
    using assms by (simp add: pool_inv_iff)
  show e: "existing_topics (websockets (removed p ks)) =
          filter (\<lambda>t. str t \<notin> set ks) (existing_topics (websockets p))"
    unfolding removed_def using existing_topics_removed [OF k] by simp
  show "pool_inv c (removed p ks)"
    unfolding pool_inv_iff e using assms
    by (auto simp: pool_inv_iff removed_def removed_props(3) intro: order_trans [OF removed_props(4)])
  show "length (websockets (removed p ks)) = length (websockets p)"
    by (simp add: removed_def)
  show "map ws (websockets (removed p ks)) = map ws (websockets p)"
    by (simp add: removed_def removed_props comp_def)
qed

lemma mset_existing_topics:
  "mset (existing_topics wss) = (\<Sum>w \<in># mset wss. mset (map snd (topics w)))"
  by (induction wss) simp_all

lemma mset_existing_topics_cong:
  "mset wss = mset wss' \<Longrightarrow> mset (existing_topics wss) = mset (existing_topics wss')"
  by (simp add: mset_existing_topics)

lemma mset_fold_remove1:
  "mset ys \<subseteq># mset xs \<Longrightarrow> mset (fold remove1 ys xs) + mset ys = mset xs"
proof (induction ys arbitrary: xs)
  case Nil
  then show ?case by simp
next
  case (Cons y ys)
  have y: "y \<in># mset xs" using Cons.prems by (simp add: insert_subset_eq_iff)
  have "mset ys \<subseteq># mset (remove1 y xs)"
    using Cons.prems by (simp add: insert_subset_eq_iff)
  then have "mset (fold remove1 ys (remove1 y xs)) + mset ys = mset (remove1 y xs)"
    by (rule Cons.IH)
  then show ?case using y by simp
qed

lemma evict_loop_eq:
  "evict_loop r s p rec stops =
     (p\<lparr>websockets := fold remove1 (evicted r s) (websockets p),
        connection_count := (if length s \<le> r then connection_count p
                             else max 0 (connection_count p - int (length s - r)))\<rparr>,
      rec @ existing_topics (evicted r s),
      stops @ map (\<lambda>w. Stop_task w True) (evicted r s))"
proof (induction s arbitrary: p rec stops)
  case Nil
  then show ?case by (simp add: evicted_def)
next
  case (Cons w s)
  show ?case
  proof (cases "length (w # s) > r")
    case True
    then have k: "length (w # s) - r = Suc (length s - r)" by simp
    have ev: "evicted r (w # s) = w # evicted r s"
      unfolding evicted_def k by simp
    show ?thesis
      using True by (simp add: Cons.IH ev)
  next
    case False
    then show ?thesis by (simp add: evicted_def)
  qed
qed

lemma required_le:
  assumes "0 < L" and "t \<le> n * L"
  shows "(t + L - 1) div L \<le> (n::nat)"
proof -
  have "t + L - 1 < Suc n * L" using assms by simp
  then have "(t + L - 1) div L < Suc n"
    using assms(1) by (simp add: less_mult_imp_div_less)
  then show ?thesis by simp
qed


lemma pool_inv_sub:
  assumes inv: "pool_inv c p" and m: "mset wss + mset ev = mset (websockets p)"
  shows "pool_inv c (p\<lparr>websockets := wss, connection_count := n\<rparr>)"
proof -
  have "mset (wss @ ev) = mset (websockets p)" using m by simp
  then have "mset (existing_topics (wss @ ev)) = mset (existing_topics (websockets p))"
    by (rule mset_existing_topics_cong)
  then have "distinct (existing_topics (wss @ ev))"
    using inv by (metis mset_eq_imp_distinct_iff pool_inv_iff)
  then have d: "distinct (existing_topics wss)" by simp
  have "set wss \<subseteq> set (websockets p)"
    using m by (metis set_mset_mset mset_subset_eq_add_left set_mset_mono)
  moreover have "length wss \<le> length (websockets p)"
    using m by (metis size_mset size_union le_add1)
  ultimately show ?thesis
    using inv d by (auto simp: pool_inv_iff)
qed

lemma sorted_take_drop:
  assumes "sorted (map f s)" and "a \<in> set (take k s)" and "b \<in> set (drop k s)"
  shows "f a \<le> f b"
proof -
  have "sorted (map f (take k s) @ map f (drop k s))"
    using assms(1) by (metis append_take_drop_id map_append)
  then show ?thesis
    using assms(2,3) by (auto simp: sorted_append)
qed

lemma mset_take_drop: "mset (take k s) + mset (drop k s) = mset s"
proof -
  have "mset (take k s) + mset (drop k s) = mset (take k s @ drop k s)"
    by (simp only: mset_append)
  also have "\<dots> = mset s" by (simp only: append_take_drop_id)
  finally show ?thesis .
qed

lemma evicted_sub:
  assumes "mset s = mset wss"
  shows "mset (evicted r s) \<subseteq># mset wss"
proof -
  have "mset (evicted r s) \<subseteq># mset (evicted r s) + mset (drop (length s - r) s)"
    by (rule mset_subset_eq_add_left)
  then show ?thesis
    unfolding evicted_def mset_take_drop using assms by simp
qed

lemma evicted_rest:
  assumes "mset s = mset wss"
  shows "mset (fold remove1 (evicted r s) wss) = mset (drop (length s - r) s)"
proof -
  have "mset (fold remove1 (evicted r s) wss) + mset (evicted r s) = mset wss"
    using evicted_sub [OF assms] by (rule mset_fold_remove1)
  also have "\<dots> = mset (take (length s - r) s) + mset (drop (length s - r) s)"
    unfolding mset_take_drop using assms by simp
  finally show ?thesis
    unfolding evicted_def by (simp add: ac_simps)
qed

lemma evicted_fewest:
  assumes "a \<in> set (evicted r (sort_key f wss))"
    and "b \<in> set (fold remove1 (evicted r (sort_key f wss)) wss)"
  shows "f a \<le> f b"
proof -
  let ?s = "sort_key f wss"
  have "mset ?s = mset wss" by simp
  then have "mset (fold remove1 (evicted r ?s) wss) = mset (drop (length ?s - r) ?s)"
    by (rule evicted_rest)
  then have "set (fold remove1 (evicted r ?s) wss) = set (drop (length ?s - r) ?s)"
    by (rule mset_eq_setD)
  then have b: "b \<in> set (drop (length ?s - r) ?s)" using assms(2) by simp
  have a: "a \<in> set (take (length ?s - r) ?s)" using assms(1) by (simp add: evicted_def)
  have "sorted (map f ?s)" by (rule sorted_sort_key)
  then show ?thesis using a b by (rule sorted_take_drop)
qed

lemma length_evicted_rest:
  assumes "mset s = mset wss" and "r \<le> length wss"
  shows "length (fold remove1 (evicted r s) wss) = r"
proof -
  have "length (fold remove1 (evicted r s) wss) = length (drop (length s - r) s)"
    using evicted_rest [OF assms(1), of r] by (metis size_mset)
  moreover have "length s = length wss" using assms(1) by (metis size_mset)
  ultimately show ?thesis using assms(2) by simp
qed

lemma optimize_pool_evict:
  assumes "2 \<le> length (websockets p)" and "0 < WS_TOPICS_LIMIT c"
    and "(total_topics p + WS_TOPICS_LIMIT c - 1) div WS_TOPICS_LIMIT c < length (websockets p)"
    and "r = (total_topics p + WS_TOPICS_LIMIT c - 1) div WS_TOPICS_LIMIT c"
    and "ev = evicted r (sort_key (\<lambda>w. length (topics w)) (websockets p))"
  shows "optimize_pool c p =
    (None,
     p\<lparr>websockets := fold remove1 ev (websockets p),
       connection_count := max 0 (connection_count p - int (length (websockets p) - r))\<rparr>,
     map (\<lambda>w. Stop_task w True) ev @
       (if existing_topics ev \<noteq> [] then [Add_topics_task (existing_topics ev)] else []))"
  using assms by (simp add: optimize_pool_def total_topics_def evict_loop_eq Let_def)

lemma optimize_pool_keep:
  assumes "\<not> (2 \<le> length (websockets p) \<and> 0 < WS_TOPICS_LIMIT c \<and>
    (total_topics p + WS_TOPICS_LIMIT c - 1) div WS_TOPICS_LIMIT c < length (websockets p))"
  shows "optimize_pool c p =
    (if 2 \<le> length (websockets p) \<and> WS_TOPICS_LIMIT c = 0 then Some ZeroDivisionError else None,
     p, [])"
  using assms by (auto simp: optimize_pool_def total_topics_def Let_def)

lemma optimize_pool_props:
  assumes inv: "pool_inv c p" and opt: "optimize_pool c p = (e, p', tasks)"
  shows "\<exists>ev. mset (websockets p') + mset ev = mset (websockets p)
      \<and> tasks = map (\<lambda>w. Stop_task w True) ev @
           (if existing_topics ev \<noteq> [] then [Add_topics_task (existing_topics ev)] else [])
      \<and> (\<forall>a \<in> set ev. \<forall>b \<in> set (websockets p'). length (topics a) \<le> length (topics b))
      \<and> pool_inv c p' \<and> running p' = running p
      \<and> (e = None \<or> e = Some ZeroDivisionError)
      \<and> (0 < WS_TOPICS_LIMIT c \<longrightarrow> e = None)
      \<and> (0 < WS_TOPICS_LIMIT c \<and> 2 \<le> length (websockets p) \<longrightarrow>
            length (websockets p') = (total_topics p + WS_TOPICS_LIMIT c - 1) div WS_TOPICS_LIMIT c)
      \<and> (length (websockets p) < 2 \<longrightarrow> p' = p \<and> ev = [])"
proof -
  let ?L = "WS_TOPICS_LIMIT c"
  let ?req = "(total_topics p + ?L - 1) div ?L"
  let ?s = "sort_key (\<lambda>w. length (topics w)) (websockets p)"
  let ?ev = "evicted ?req ?s"
  have tot: "total_topics p \<le> length (websockets p) * ?L"
    unfolding total_topics_def using inv by (intro sum_list_bounds(1)) (simp add: pool_inv_iff)
  have ms: "mset ?s = mset (websockets p)" by simp
  show ?thesis
  proof (cases "2 \<le> length (websockets p) \<and> 0 < ?L \<and> ?req < length (websockets p)")
    case True
    let ?wss = "fold remove1 ?ev (websockets p)"
    let ?n = "max 0 (connection_count p - int (length (websockets p) - ?req))"
    let ?p2 = "p\<lparr>websockets := ?wss, connection_count := ?n\<rparr>"
    let ?tasks = "map (\<lambda>w. Stop_task w True) ?ev @
           (if existing_topics ?ev \<noteq> [] then [Add_topics_task (existing_topics ?ev)] else [])"
    have eq: "optimize_pool c p = (None, ?p2, ?tasks)"
      using True by (intro optimize_pool_evict) simp_all
    have r: "(e, p', tasks) = (None, ?p2, ?tasks)"
      by (rule trans [OF opt [symmetric] eq])
    have e: "e = None" using r by (rule Pair_inject)
    have p': "p' = ?p2" using r by (elim Pair_inject)
    have tasks: "tasks = ?tasks" using r by (elim Pair_inject)
    have m: "mset ?wss + mset ?ev = mset (websockets p)"
      using evicted_sub [OF ms] by (rule mset_fold_remove1)
    have len: "length ?wss = ?req"
      using ms by (rule length_evicted_rest) (use True in simp)
    have few: "\<forall>a \<in> set ?ev. \<forall>b \<in> set ?wss. length (topics a) \<le> length (topics b)"
      using evicted_fewest [of _ ?req "\<lambda>w. length (topics w)" "websockets p"] by blast
    have inv': "pool_inv c ?p2"
      using inv m by (rule pool_inv_sub)
    have w': "websockets p' = ?wss" and run: "running p' = running p"
      unfolding p' by simp_all
    have 1: "mset (websockets p') + mset ?ev = mset (websockets p)" unfolding w' by (rule m)
    have 3: "\<forall>a \<in> set ?ev. \<forall>b \<in> set (websockets p'). length (topics a) \<le> length (topics b)"
      unfolding w' by (rule few)
    have 4: "pool_inv c p'" unfolding p' by (rule inv')
    have 6: "e = None \<or> e = Some ZeroDivisionError" using e by simp
    have 7: "0 < ?L \<longrightarrow> e = None" using e by simp
    have 8: "0 < ?L \<and> 2 \<le> length (websockets p) \<longrightarrow> length (websockets p') = ?req"
      unfolding w' using len by simp
    have 9: "length (websockets p) < 2 \<longrightarrow> p' = p \<and> ?ev = []" using True by simp
    show ?thesis
      by (rule exI [of _ ?ev]) (intro conjI 1 tasks 3 4 run 6 7 8 9)
  next
    case False
    have eq: "optimize_pool c p =
      (if 2 \<le> length (websockets p) \<and> ?L = 0 then Some ZeroDivisionError else None, p, [])"
      using False by (rule optimize_pool_keep)
    have r: "(e, p', tasks) =
      (if 2 \<le> length (websockets p) \<and> ?L = 0 then Some ZeroDivisionError else None, p, [])"
      by (rule trans [OF opt [symmetric] eq])
    then have p': "p' = p" and tasks: "tasks = []"
      and e: "e = (if 2 \<le> length (websockets p) \<and> ?L = 0 then Some ZeroDivisionError else None)"
      by simp_all
    have 8: "0 < ?L \<and> 2 \<le> length (websockets p) \<longrightarrow> length (websockets p') = ?req"
      using False required_le [of ?L "total_topics p" "length (websockets p)"] tot p' by auto
    have 1: "mset (websockets p') + mset [] = mset (websockets p)" using p' by simp
    have 2: "tasks = map (\<lambda>w. Stop_task w True) [] @
           (if existing_topics [] \<noteq> [] then [Add_topics_task (existing_topics [])] else [])"
      using tasks by simp
    have 3: "\<forall>a \<in> set []. \<forall>b \<in> set (websockets p'). length (topics a) \<le> length (topics b)"
      by simp
    have 4: "pool_inv c p'" using inv p' by simp
    have 5: "running p' = running p" using p' by simp
    have 6: "e = None \<or> e = Some ZeroDivisionError" using e by simp
    have 7: "0 < ?L \<longrightarrow> e = None" using e by simp
    have 9: "length (websockets p) < 2 \<longrightarrow> p' = p \<and> [] = ([]::Websocket list)" using p' by simp
    show ?thesis
      by (rule exI [of _ "[]"]) (intro conjI 1 2 3 4 5 6 7 8 9)
  qed
qed

lemma pool_remove_inv:
  assumes inv: "pool_inv c p" and rm: "WebsocketPool_remove_topics c p ks = (e, p', tasks)"
  shows "pool_inv c p'"
proof (cases "ks = []")
  case True
  with rm inv show ?thesis by (simp add: WebsocketPool_remove_topics_def)
next
  case False
  then have "optimize_pool c (removed p (remdups ks)) = (e, p', tasks)"
    using rm pool_remove_unfold [OF inv, of ks] by simp
  with optimize_pool_props [OF removed_inv(1) [OF inv]] show ?thesis by blast
qed

lemma existing_topics_topics:
  "map topics wss = map topics wss' \<Longrightarrow> existing_topics wss = existing_topics wss'"
proof -
  assume "map topics wss = map topics wss'"
  then have "map (map snd) (map topics wss) = map (map snd) (map topics wss')"
    by simp
  then have "map (\<lambda>w. map snd (topics w)) wss = map (\<lambda>w. map snd (topics w)) wss'"
    by (simp add: comp_def)
  then show ?thesis by (simp add: existing_topics_def)
qed

lemma pool_inv_topics:
  assumes "map topics (websockets p') = map topics (websockets p)"
  shows "pool_inv c p' = pool_inv c p"
proof -
  have e: "existing_topics (websockets p') = existing_topics (websockets p)"
    using assms by (rule existing_topics_topics)
  have "set (map topics (websockets p')) = set (map topics (websockets p))"
    using assms by simp
  then have s: "topics ` set (websockets p') = topics ` set (websockets p)" by simp
  have a: "(\<forall>w \<in> set wss. keyed_by_str (topics w) \<and> length (topics w) \<le> WS_TOPICS_LIMIT c)
     \<longleftrightarrow> (\<forall>tp \<in> topics ` set wss. keyed_by_str tp \<and> length tp \<le> WS_TOPICS_LIMIT c)" for wss
    by auto
  have "length (websockets p') = length (websockets p)"
    using assms by (metis length_map)
  then show ?thesis
    unfolding pool_inv_iff e a s by simp
qed

lemma update_ws_inv:
  assumes "\<And>w. topics (f w) = topics w"
  shows "pool_inv c (update_ws i f p) = pool_inv c p"
proof (rule pool_inv_topics)
  show "map topics (websockets (update_ws i f p)) = map topics (websockets p)"
    using assms by (simp add: update_ws_def map_update list_update_same_conv)
qed

lemma start_inv: "pool_inv c (WebsocketPool_start p) = pool_inv c p"
  by (rule pool_inv_topics) (simp add: WebsocketPool_start_def comp_def start_nowait_def)

lemma existing_stop:
  "mset (existing_topics (map (Websocket_stop b) wss)) \<subseteq># mset (existing_topics wss)"
proof (induction wss)
  case Nil
  then show ?case by simp
next
  case (Cons w wss)
  have "mset (map snd (topics (Websocket_stop b w))) \<subseteq># mset (map snd (topics w))"
    by (simp add: topics_stop)
  then show ?case
    using Cons by (simp add: subset_mset.add_mono)
qed

lemma distinct_mset_sub:
  assumes "mset xs \<subseteq># mset ys" and "distinct ys"
  shows "distinct xs"
proof -
  from assms(1) obtain zs where "mset ys = mset xs + zs"
    by (metis subset_mset.le_iff_add)
  moreover obtain l where "zs = mset l" by (metis ex_mset)
  ultimately have "mset ys = mset (xs @ l)" by simp
  then have "distinct (xs @ l)" using assms(2) by (metis mset_eq_imp_distinct_iff)
  then show ?thesis by simp
qed

lemma stop_inv:
  assumes "pool_inv c p"
  shows "pool_inv c (WebsocketPool_stop b p)"
proof -
  have d: "distinct (existing_topics (websockets (WebsocketPool_stop b p)))"
    using existing_stop [of b "websockets p"] assms
    by (auto simp: WebsocketPool_stop_def pool_inv_iff intro: distinct_mset_sub)
  have "keyed_by_str (topics (Websocket_stop b w)) \<and> length (topics (Websocket_stop b w)) \<le> WS_TOPICS_LIMIT c"
    if "keyed_by_str (topics w) \<and> length (topics w) \<le> WS_TOPICS_LIMIT c" for w
    using that by (simp add: topics_stop keyed_by_str_def)
  then show ?thesis
    using d assms by (auto simp: pool_inv_iff WebsocketPool_stop_def)
qed

lemma init_inv: "pool_inv c WebsocketPool_init"
  by (simp add: pool_inv_def WebsocketPool_init_def existing_topics_def)

lemma step_inv:
  assumes "pool_inv c (pool s)"
  shows "pool_inv c (pool (step c clock s ev))"
proof (cases ev)
  case (Add ts)
  obtain e p' where a: "WebsocketPool_add_topics c clock (pool s) ts = (e, p')" by (metis surj_pair)
  with pool_add_props [OF assms a] Add show ?thesis by simp
next
  case (Remove ks)
  obtain e p' tasks where r: "WebsocketPool_remove_topics c (pool s) ks = (e, p', tasks)"
    by (metis prod_cases3)
  with pool_remove_inv [OF assms r] Remove show ?thesis by simp
next
  case Readd
  show ?thesis
  proof (cases "recycling s")
    case Nil
    with Readd assms show ?thesis by simp
  next
    case (Cons ts waiting)
    obtain e p' where a: "WebsocketPool_add_topics c clock (pool s) ts = (e, p')" by (metis surj_pair)
    with pool_add_props [OF assms a] Readd Cons show ?thesis by simp
  qed
next
  case (Connected i)
  then show ?thesis
    using assms update_ws_inv [of handle_connected c i "pool s"] by (simp add: handle_connected_def)
next
  case (Disconnected i)
  then show ?thesis
    using assms update_ws_inv [of handle_finally c i "pool s"] by (simp add: handle_finally_def)
next
  case Start
  then show ?thesis using assms by (simp add: start_inv)
next
  case (Stop b)
  then show ?thesis using assms by (simp add: stop_inv)
qed

lemma foldl_step_inv:
  "pool_inv c (pool s) \<Longrightarrow> pool_inv c (pool (foldl (step c clock) s evs))"
  by (induction evs arbitrary: s) (simp_all add: step_inv)

lemma run_inv: "pool_inv c (pool (run c clock evs))"
  unfolding run_def by (rule foldl_step_inv) (simp add: system_init_def init_inv)

lemma card_existing_union:
  assumes "pool_inv c p"
  shows "card (set (existing_topics (websockets p)) \<union> set ts) =
           total_topics p + length (new_topics p ts)"
proof -
  have d: "distinct (existing_topics (websockets p) @ new_topics p ts)"
    using assms new_topics_props(1,2) [of p ts] by (auto simp: pool_inv_iff)
  have "set (existing_topics (websockets p)) \<union> set ts =
      set (existing_topics (websockets p) @ new_topics p ts)"
    using new_topics_props(3) [of p ts] by auto
  then have "card (set (existing_topics (websockets p)) \<union> set ts) =
      length (existing_topics (websockets p) @ new_topics p ts)"
    using d by (simp only: distinct_card)
  then show ?thesis by (simp add: total_topics_existing)
qed

lemma pool_add_connected:
  assumes inv: "pool_inv c p" and add: "WebsocketPool_add_topics c clock p ts = (e, p')"
    and conn: "\<forall>w \<in> set (websockets p). ws w"
    and cap: "card (set (existing_topics (websockets p)) \<union> set ts)
                \<le> MAX_WEBSOCKETS c * WS_TOPICS_LIMIT c"
  shows "e = None"
proof (rule ccontr)
  assume ne: "e \<noteq> None"
  note P = pool_add_props [OF inv add]
  from P obtain rest where
    m: "mset (existing_topics (websockets p')) + mset rest =
        mset (existing_topics (websockets p)) + mset (new_topics p ts)"
    and e: "e = None \<longleftrightarrow> rest = []"
    by blast
  have full: "\<forall>w \<in> set (websockets p'). WS_TOPICS_LIMIT c \<le> length (topics w)"
    using P conn ne by blast
  have len: "length (websockets p') = MAX_WEBSOCKETS c" using P ne by blast
  have "length (websockets p') * WS_TOPICS_LIMIT c \<le> length (existing_topics (websockets p'))"
    unfolding length_existing_topics using full by (rule sum_list_bounds(2))
  then have a: "MAX_WEBSOCKETS c * WS_TOPICS_LIMIT c \<le> length (existing_topics (websockets p'))"
    using len by simp
  have "size (mset (existing_topics (websockets p')) + mset rest) =
        size (mset (existing_topics (websockets p)) + mset (new_topics p ts))"
    using m by simp
  then have b: "length (existing_topics (websockets p')) + length rest =
      total_topics p + length (new_topics p ts)"
    by (simp add: total_topics_existing)
  have "0 < length rest" using e ne by simp
  then show False
    using a b cap unfolding card_existing_union [OF inv] by linarith
qed

lemma ex_idle_pool_eq:
  "ex_idle_pool = \<lparr>running = False,
     websockets =
       [(Websocket_init ex_constants 0 0)
          \<lparr>topics_changed := True, topics := [(''A'', WebsocketTopic ''A'')]\<rparr>,
        (Websocket_init ex_constants 0 1)
          \<lparr>topics_changed := True, topics := [(''B'', WebsocketTopic ''B'')]\<rparr>],
     connection_count = 2\<rparr>"
  by (simp add: ex_idle_pool_def run_def system_init_def WebsocketPool_init_def
      WebsocketPool_add_topics_def existing_topics_def Websocket_add_topics_def
      Websocket_init_def ex_constants_def ex_clock_def upt_rec)

lemma ex_live_pool_eq:
  "ex_live_pool = \<lparr>running = True,
     websockets =
       [(Websocket_init ex_constants 0 0)
          \<lparr>ws := True, handle_task := True, topics_changed := True,
           topics := [(''A'', WebsocketTopic ''A'')]\<rparr>],
     connection_count = 1\<rparr>"
  by (simp add: ex_live_pool_def run_def system_init_def WebsocketPool_init_def
      WebsocketPool_add_topics_def existing_topics_def Websocket_add_topics_def
      Websocket_init_def ex_constants_def ex_clock_def upt_rec WebsocketPool_start_def
      start_nowait_def update_ws_def handle_connected_def)

lemma run_Nil: "pool (run c clock []) = WebsocketPool_init"
  by (simp add: run_def system_init_def)

lemma pool_add_overflow:
  assumes inv: "pool_inv c p" and add: "WebsocketPool_add_topics c clock p ts = (e, p')"
    and big: "MAX_WEBSOCKETS c * WS_TOPICS_LIMIT c < card (set ts)"
  shows "e = Some MinerException"
proof -
  note P = pool_add_props [OF inv add]
  have inv': "pool_inv c p'" using P by blast
  have "e \<noteq> None"
  proof
    assume "e = None"
    then have "set ts \<subseteq> set (existing_topics (websockets p'))"
      by (rule pool_add_assigned(3) [OF inv add])
    then have "card (set ts) \<le> card (set (existing_topics (websockets p')))"
      by (intro card_mono) simp_all
    also have "\<dots> \<le> length (existing_topics (websockets p'))" by (rule card_length)
    also have "\<dots> = total_topics p'" by (simp add: total_topics_existing)
    also have "\<dots> \<le> MAX_WEBSOCKETS c * WS_TOPICS_LIMIT c" using inv' by (rule pool_inv_total)
    finally show False using big by simp
  qed
  moreover have "e = None \<or> e = Some MinerException" using P by blast
  ultimately show ?thesis by blast
qed

lemma pool_add_full:
  assumes inv: "pool_inv c p" and add: "WebsocketPool_add_topics c clock p ts = (e, p')"
    and ne: "e \<noteq> None" and conn: "\<forall>w \<in> set (websockets p). ws w"
  shows "total_topics p' = MAX_WEBSOCKETS c * WS_TOPICS_LIMIT c"
proof -
  note P = pool_add_props [OF inv add]
  have inv': "pool_inv c p'" using P by blast
  have full: "\<forall>w \<in> set (websockets p'). WS_TOPICS_LIMIT c \<le> length (topics w)"
    using P ne conn by blast
  have len: "length (websockets p') = MAX_WEBSOCKETS c" using P ne by blast
  have "length (websockets p') * WS_TOPICS_LIMIT c \<le> total_topics p'"
    unfolding total_topics_def using full by (rule sum_list_bounds(2))
  then have "MAX_WEBSOCKETS c * WS_TOPICS_LIMIT c \<le> total_topics p'" using len by simp
  moreover have "total_topics p' \<le> MAX_WEBSOCKETS c * WS_TOPICS_LIMIT c"
    using inv' by (rule pool_inv_total)
  ultimately show ?thesis by simp
qed

lemma pool_add_init_full:
  assumes add: "WebsocketPool_add_topics c clock WebsocketPool_init ts = (e, p')"
    and ne: "e \<noteq> None"
  shows "total_topics p' = MAX_WEBSOCKETS c * WS_TOPICS_LIMIT c"
  using init_inv add ne by (rule pool_add_full) (simp add: WebsocketPool_init_def)







section \<open>The claims\<close>

text \<open>
  C8: calling the pool's \<^verbatim>\<open>remove_topics\<close> with the empty set changes nothing of the
  pool, so neither the list of connections nor the connection counter, and hands no task
  to the event loop: no consolidation is run.
\<close>

theorem remove_topics_empty_noop:
  "WebsocketPool_remove_topics c p [] = (None, p, [])"
  by (simp add: WebsocketPool_remove_topics_def)

text \<open>
  C9: the topic map of a connection is keyed by the string form of its values. This
  holds of a new connection and is kept by \<^verbatim>\<open>add_topics\<close> and \<^verbatim>\<open>remove_topics\<close> of the
  connection.
\<close>

theorem topics_keyed_by_str:
  "keyed_by_str (topics (Websocket_init c now i)) \<and>
   (keyed_by_str (topics w) \<longrightarrow>
      keyed_by_str (topics (fst (Websocket_add_topics c w ts))) \<and>
      keyed_by_str (topics (fst (Websocket_remove_topics w ks))))"
  by (simp add: topics_add_topics topics_remove_topics add_loop_keyed keyed_by_str_filter)
     (simp add: keyed_by_str_def Websocket_init_def)

theorem topics_keyed_by_str_witness:
  "keyed_by_str (topics ex_ws) \<and>
   keyed_by_str (topics (fst (Websocket_add_topics ex_constants ex_ws [WebsocketTopic ''B'']))) \<and>
   topics (fst (Websocket_add_topics ex_constants ex_ws [WebsocketTopic ''B''])) =
     [(''A'', WebsocketTopic ''A''), (''B'', WebsocketTopic ''B'')] \<and>
   keyed_by_str (topics (fst (Websocket_remove_topics ex_ws [''A'']))) \<and>
   topics (fst (Websocket_remove_topics ex_ws [''A''])) = []"
proof -
  have k: "keyed_by_str (topics ex_ws)"
    by (simp add: ex_ws_def keyed_by_str_def)
  show ?thesis
    using k topics_keyed_by_str [of ex_constants 0 0 ex_ws "[WebsocketTopic ''B'']" "[''A'']"]
    by (simp add: ex_ws_def ex_constants_def Websocket_init_def Websocket_add_topics_def
        Websocket_remove_topics_def)
qed

text \<open>
  C10: the pool's \<^verbatim>\<open>stop\<close> calls \<^verbatim>\<open>stop\<close> on every member connection, after which each
  is closed (and has no lifecycle task left when it was not closed before), clears the
  running flag and sets the connection counter to zero. The list of connections keeps
  its length and its members, whatever \<^verbatim>\<open>clear_topics\<close> is, and a following \<^verbatim>\<open>start\<close>
  sets the running flag and gives every one of them a lifecycle task again.
\<close>

theorem pool_stop_keeps_websockets:
  "running (WebsocketPool_stop clear_topics p) = False \<and>
   connection_count (WebsocketPool_stop clear_topics p) = 0 \<and>
   websockets (WebsocketPool_stop clear_topics p) = map (Websocket_stop clear_topics) (websockets p) \<and>
   length (websockets (WebsocketPool_stop clear_topics p)) = length (websockets p) \<and>
   map idx (websockets (WebsocketPool_stop clear_topics p)) = map idx (websockets p) \<and>
   list_all closed_event (websockets (WebsocketPool_stop clear_topics p)) \<and>
   (list_all (\<lambda>w. \<not> closed_event w) (websockets p) \<longrightarrow>
      list_all (\<lambda>w. \<not> handle_task w) (websockets (WebsocketPool_stop clear_topics p))) \<and>
   running (WebsocketPool_start (WebsocketPool_stop clear_topics p)) \<and>
   length (websockets (WebsocketPool_start (WebsocketPool_stop clear_topics p))) =
     length (websockets p) \<and>
   map idx (websockets (WebsocketPool_start (WebsocketPool_stop clear_topics p))) =
     map idx (websockets p) \<and>
   list_all handle_task (websockets (WebsocketPool_start (WebsocketPool_stop clear_topics p)))"
  by (simp add: WebsocketPool_stop_def WebsocketPool_start_def list_all_iff closed_event_stop
      idx_stop handle_task_stop handle_task_start_nowait comp_def)
     (simp add: start_nowait_def idx_stop)

theorem pool_stop_keeps_websockets_witness:
  "list_all (\<lambda>w. \<not> closed_event w) (websockets ex_pool) \<and>
   length (websockets (WebsocketPool_stop True ex_pool)) = 2 \<and>
   map idx (websockets (WebsocketPool_stop True ex_pool)) = [0, 1] \<and>
   list_all closed_event (websockets (WebsocketPool_stop True ex_pool)) \<and>
   list_all (\<lambda>w. \<not> handle_task w) (websockets (WebsocketPool_stop True ex_pool)) \<and>
   list_all handle_task (websockets (WebsocketPool_start (WebsocketPool_stop True ex_pool)))"
proof -
  have h: "list_all (\<lambda>w. \<not> closed_event w) (websockets ex_pool)"
    by (simp add: ex_pool_def ex_ws_def Websocket_init_def)
  show ?thesis
    using h pool_stop_keeps_websockets [of True ex_pool]
    by (simp add: ex_pool_def ex_ws_def Websocket_init_def WebsocketPool_stop_def
        WebsocketPool_start_def Websocket_stop_def start_nowait_def handle_finally_def)
qed




text \<open>
  C4, against the claim as stated: with a heartbeat interval of 1s and a timeout of 1s, a
  connection whose loop runs every 0.5s for 2.5s with no inbound frame sends three
  heartbeats and never requests a reconnect.
\<close>

theorem heartbeat_scenario_counterexample:
  "steady_loop ex_equal [quiet 0, quiet 0.5, quiet 1, quiet 1.5, quiet 2, quiet 2.5] ex_rnd
     (handle_connected (Websocket_init ex_equal 0 0)) =
   (None,
    (handle_connected (Websocket_init ex_equal 0 0))\<lparr>next_ping := 3, max_pong := 3\<rparr>,
    [Sent [(''type'', JStr ''PING'')], Sent [(''type'', JStr ''PING'')],
     Sent [(''type'', JStr ''PING'')]]) \<and>
   requests (snd (snd (steady_loop ex_equal
     [quiet 0, quiet 0.5, quiet 1, quiet 1.5, quiet 2, quiet 2.5] ex_rnd
     (handle_connected (Websocket_init ex_equal 0 0))))) \<noteq> 1"
  by (simp add: ex_equal_def quiet_def handle_connected_def Websocket_init_def handle_ping_def
      send_ping handle_topics_def handle_recv_def)

text \<open>
  C4, amended: when the timeout deadline has passed and the next heartbeat is not yet due,
  the heartbeat check requests a reconnect and sends nothing. The request sets the
  reconnect flag, a second request leaves it set, and the steady-state loop does not run
  another iteration once it is set: with no inbound frames a run of the loop holds at most
  one request. When the timeout is not shorter than the interval (as with 1s and 1s) the
  heartbeat is due by the time the deadline has passed, and the loop requests no reconnect
  at all.
\<close>

theorem heartbeat_timeout_reconnect:
  "(now < next_ping w \<and> max_pong w \<le> now \<longrightarrow>
      handle_ping c now now' sj rnd w =
        (None, request_reconnect now' w, [Reconnect_request], rnd)) \<and>
   reconnect_requested (request_reconnect now' w) \<and>
   reconnect_requested (request_reconnect t (request_reconnect now' w)) \<and>
   steady_loop c its rnd (request_reconnect now' w) = (None, request_reconnect now' w, []) \<and>
   ((\<forall>i \<in> set its. inbound i = Frames []) \<longrightarrow>
      requests (snd (snd (steady_loop c its rnd w))) \<le> 1) \<and>
   (PING_INTERVAL c \<le> PING_TIMEOUT c \<and> next_ping w \<le> max_pong w \<and>
    (\<forall>i \<in> set its. inbound i = Frames []) \<longrightarrow>
      requests (snd (snd (steady_loop c its rnd w))) = 0)"
proof -
  have r: "reconnect_requested (request_reconnect now' w)"
    by (simp add: request_reconnect_def)
  have r2: "reconnect_requested (request_reconnect t (request_reconnect now' w))"
    by (simp add: request_reconnect_def)
  have p: "now < next_ping w \<and> max_pong w \<le> now \<longrightarrow>
      handle_ping c now now' sj rnd w =
        (None, request_reconnect now' w, [Reconnect_request], rnd)"
    by (simp add: handle_ping_timeout)
  have s: "steady_loop c its rnd (request_reconnect now' w) = (None, request_reconnect now' w, [])"
    using r by (rule steady_loop_requested)
  have l: "(\<forall>i \<in> set its. inbound i = Frames []) \<longrightarrow>
      requests (snd (snd (steady_loop c its rnd w))) \<le> 1"
    using steady_loop_requests by blast
  have n: "PING_INTERVAL c \<le> PING_TIMEOUT c \<and> next_ping w \<le> max_pong w \<and>
    (\<forall>i \<in> set its. inbound i = Frames []) \<longrightarrow>
      requests (snd (snd (steady_loop c its rnd w))) = 0"
    using steady_loop_no_timeout requests_0 by blast
  from p r r2 s l n show ?thesis by blast
qed

theorem heartbeat_timeout_reconnect_witness:
  "list_all (\<lambda>i. inbound i = Frames [])
     [quiet 0, quiet 0.5, quiet 1, quiet 1.5, quiet 2, quiet 2.5] \<and>
   steady_loop ex_constants [quiet 0, quiet 0.5, quiet 1, quiet 1.5, quiet 2, quiet 2.5] ex_rnd
     (handle_connected (Websocket_init ex_constants 0 0)) =
   (None,
    (handle_connected (Websocket_init ex_constants 0 0))
      \<lparr>next_ping := 1, max_pong := 1, reconnect_requested := True\<rparr>,
    [Sent [(''type'', JStr ''PING'')], Reconnect_request]) \<and>
   requests (snd (snd (steady_loop ex_constants
     [quiet 0, quiet 0.5, quiet 1, quiet 1.5, quiet 2, quiet 2.5] ex_rnd
     (handle_connected (Websocket_init ex_constants 0 0))))) \<le> 1 \<and>
   (1 < next_ping ((handle_connected (Websocket_init ex_constants 0 0))\<lparr>next_ping := 3, max_pong := 1\<rparr>) \<and>
    handle_ping ex_constants 1 1 (\<lambda>m. True) ex_rnd
      ((handle_connected (Websocket_init ex_constants 0 0))\<lparr>next_ping := 3, max_pong := 1\<rparr>) =
    (None, request_reconnect 1 ((handle_connected (Websocket_init ex_constants 0 0))\<lparr>next_ping := 3, max_pong := 1\<rparr>),
      [Reconnect_request], ex_rnd)) \<and>
   PING_INTERVAL ex_equal \<le> PING_TIMEOUT ex_equal \<and>
   requests (snd (snd (steady_loop ex_equal
     [quiet 0, quiet 0.5, quiet 1, quiet 1.5, quiet 2, quiet 2.5] ex_rnd
     (handle_connected (Websocket_init ex_equal 0 0))))) = 0"
proof -
  let ?its = "[quiet 0, quiet 0.5, quiet 1, quiet 1.5, quiet 2, quiet 2.5]"
  let ?w = "(handle_connected (Websocket_init ex_constants 0 0))\<lparr>next_ping := 3, max_pong := 1\<rparr>"
  have q: "\<forall>i \<in> set ?its. inbound i = Frames []"
    by (simp add: quiet_def)
  have run: "steady_loop ex_constants ?its ex_rnd (handle_connected (Websocket_init ex_constants 0 0)) =
     (None, (handle_connected (Websocket_init ex_constants 0 0))
        \<lparr>next_ping := 1, max_pong := 1, reconnect_requested := True\<rparr>,
      [Sent [(''type'', JStr ''PING'')], Reconnect_request])"
    by (simp add: ex_constants_def quiet_def handle_connected_def Websocket_init_def
        handle_ping_def send_ping handle_topics_def handle_recv_def request_reconnect_def)
  have t: "1 < next_ping ?w \<and> max_pong ?w \<le> 1"
    by (simp add: handle_connected_def Websocket_init_def)
  have e: "PING_INTERVAL ex_equal \<le> PING_TIMEOUT ex_equal \<and>
      next_ping (handle_connected (Websocket_init ex_equal 0 0))
        \<le> max_pong (handle_connected (Websocket_init ex_equal 0 0))"
    by (simp add: ex_equal_def handle_connected_def Websocket_init_def)
  show ?thesis
    using q run t e
      heartbeat_timeout_reconnect [of 1 ?w ex_constants 1 "\<lambda>m. True" ex_rnd 1 ?its]
      heartbeat_timeout_reconnect [of 1 "handle_connected (Websocket_init ex_constants 0 0)"
        ex_constants 1 "\<lambda>m. True" ex_rnd 1 ?its]
      heartbeat_timeout_reconnect [of 1 "handle_connected (Websocket_init ex_equal 0 0)"
        ex_equal 1 "\<lambda>m. True" ex_rnd 1 ?its]
    by simp
qed

text \<open>
  C6, against the claim as stated: on a connection whose topic \<open>A\<close> is assigned and not
  yet submitted, adding and removing \<open>B\<close> before the sync leaves the sync its \<^verbatim>\<open>LISTEN\<close>
  for \<open>A\<close>; on a connection in sync with \<open>A\<close>, adding \<open>A\<close> again and removing it makes
  the sync send an \<^verbatim>\<open>UNLISTEN\<close> for \<open>A\<close>.
\<close>

theorem add_remove_roundtrip_counterexample:
  "fst (snd (snd (handle_topics ''token'' (\<lambda>m. True) ex_rnd
      (fst (Websocket_remove_topics
         (fst (Websocket_add_topics ex_constants ex_unsynced [WebsocketTopic ''B''])) [''B''])))))
     = [Sent (control_frame ''LISTEN'' [''A''] ''token'' (create_nonce ex_rnd 30))] \<and>
   fst (snd (snd (handle_topics ''token'' (\<lambda>m. True) ex_rnd
      (fst (Websocket_remove_topics
         (fst (Websocket_add_topics ex_constants ex_synced [WebsocketTopic ''A''])) [''A''])))))
     = [Sent (control_frame ''UNLISTEN'' [''A''] ''token'' (create_nonce ex_rnd 30))]"
  by (simp add: ex_unsynced_eq ex_synced_eq ex_constants_def Websocket_init_def
      Websocket_add_topics_def Websocket_remove_topics_def handle_topics_def
      sync_removed_cases sync_added_cases)

text \<open>
  C6, amended: when the topic is not assigned to the connection and the submitted set equals
  the assigned topics, adding the topic and removing it again before any sync leaves the
  topic map and the submitted set as they were, and the next sync sends no frame.
\<close>

theorem add_remove_roundtrip:
  assumes "str t \<notin> keys w" and "in_sync w"
    and "w2 = fst (Websocket_remove_topics (fst (Websocket_add_topics c w [t])) [str t])"
  shows "topics w2 = topics w \<and> submitted w2 = submitted w \<and>
         handle_topics tok sj rnd w2 = (None, w2\<lparr>topics_changed := False\<rparr>, [], rnd)"
proof -
  have t: "topics w2 = topics w"
    using assms(1,3) by (simp add: add_then_remove)
  have s: "submitted w2 = submitted w"
    using assms(3) by (simp add: submitted_remove_topics submitted_add_topics)
  from t s assms(2) have "in_sync w2" by (simp add: in_sync_def)
  then show ?thesis
    using t s by (simp add: in_sync_silent)
qed

theorem add_remove_roundtrip_witness:
  "str (WebsocketTopic ''B'') \<notin> keys ex_synced \<and> in_sync ex_synced \<and>
   topics_changed (fst (Websocket_remove_topics
      (fst (Websocket_add_topics ex_constants ex_synced [WebsocketTopic ''B''])) [''B''])) \<and>
   handle_topics ''token'' (\<lambda>m. True) ex_rnd
     (fst (Websocket_remove_topics
        (fst (Websocket_add_topics ex_constants ex_synced [WebsocketTopic ''B''])) [''B''])) =
   (None, ex_synced, [], ex_rnd)"
proof -
  let ?w2 = "fst (Websocket_remove_topics
        (fst (Websocket_add_topics ex_constants ex_synced [WebsocketTopic ''B''])) [''B''])"
  have f: "str (WebsocketTopic ''B'') \<notin> keys ex_synced" and i: "in_sync ex_synced"
    by (simp_all add: ex_synced_eq keys_def in_sync_def)
  have w2: "?w2 = ex_synced\<lparr>topics_changed := True\<rparr>"
    by (simp add: ex_synced_eq ex_constants_def Websocket_init_def Websocket_add_topics_def
        Websocket_remove_topics_def)
  have "ex_synced\<lparr>topics_changed := False\<rparr> = ex_synced"
    by (simp add: ex_synced_eq Websocket_init_def)
  then show ?thesis
    using f i w2
      add_remove_roundtrip [of "WebsocketTopic ''B''" ex_synced ?w2 ex_constants "''token''"
        "\<lambda>m. True" ex_rnd]
    by simp
qed

text \<open>
  C7: every frame the heartbeat check sends is the dict with the one entry of type
  \<^verbatim>\<open>PING\<close>, so it has no nonce. The frames of a sync are none, one control message, or an
  \<^verbatim>\<open>UNLISTEN\<close> followed by a \<^verbatim>\<open>LISTEN\<close>; each carries the access token fetched in this
  sync and a nonce of 30 characters, the first made of the next 30 draws of the random
  source and the second of the 30 draws after those.
\<close>

theorem outbound_frames:
  "(Sent m \<in> set (fst (snd (snd (handle_ping c now now' sj rnd w)))) \<longrightarrow>
      m = [(''type'', JStr ''PING'')] \<and> map_of m ''nonce'' = None) \<and>
   (handle_topics tok sj rnd w = (e, w', acts, rnd') \<longrightarrow>
      acts = [] \<or>
      (\<exists>ty ks. (ty = ''LISTEN'' \<or> ty = ''UNLISTEN'') \<and>
         acts = [Sent (control_frame ty ks tok (create_nonce rnd 30))]) \<or>
      (\<exists>ks ks'. acts =
         [Sent (control_frame ''UNLISTEN'' ks tok (create_nonce rnd 30)),
          Sent (control_frame ''LISTEN'' ks' tok (create_nonce (drawn 30 rnd) 30))])) \<and>
   length (create_nonce rnd 30) = 30 \<and>
   create_nonce (drawn 30 rnd) 30 = map rnd [30..<60]"
proof -
  have 1: "Sent m \<in> set (fst (snd (snd (handle_ping c now now' sj rnd w)))) \<longrightarrow>
      m = [(''type'', JStr ''PING'')] \<and> map_of m ''nonce'' = None"
    using handle_ping_sent [of m c now now' sj rnd w] by auto
  have 2: "handle_topics tok sj rnd w = (e, w', acts, rnd') \<longrightarrow>
      acts = [] \<or>
      (\<exists>ty ks. (ty = ''LISTEN'' \<or> ty = ''UNLISTEN'') \<and>
         acts = [Sent (control_frame ty ks tok (create_nonce rnd 30))]) \<or>
      (\<exists>ks ks'. acts =
         [Sent (control_frame ''UNLISTEN'' ks tok (create_nonce rnd 30)),
          Sent (control_frame ''LISTEN'' ks' tok (create_nonce (drawn 30 rnd) 30))])"
    by (rule impI) (rule handle_topics_frames)
  have 3: "create_nonce (drawn 30 rnd) 30 = map rnd [30..<60]"
  proof -
    have "create_nonce (drawn 30 rnd) 30 = map rnd [30..<30 + 30]"
      by (rule create_nonce_drawn)
    also have "30 + 30 = (60::nat)" by simp
    finally show ?thesis .
  qed
  have 4: "length (create_nonce rnd 30) = 30"
    by (rule length_create_nonce)
  show ?thesis
    by (rule conjI [OF 1 conjI [OF 2 conjI [OF 4 3]]])
qed

theorem outbound_frames_witness:
  "Sent [(''type'', JStr ''PING'')] \<in>
     set (fst (snd (snd (handle_ping ex_constants 0 0 (\<lambda>m. True) ex_rnd ex_dirty)))) \<and>
   handle_topics ''token'' (\<lambda>m. True) ex_rnd ex_dirty =
     (None,
      ex_dirty\<lparr>topics_changed := False, submitted := [WebsocketTopic ''A'']\<rparr>,
      [Sent (control_frame ''UNLISTEN'' [''B''] ''token'' (create_nonce ex_rnd 30)),
       Sent (control_frame ''LISTEN'' [''A''] ''token'' (create_nonce (drawn 30 ex_rnd) 30))],
      drawn 30 (drawn 30 ex_rnd)) \<and>
   map_of [(''type'', JStr ''PING'')] ''nonce'' = None \<and>
   length (create_nonce ex_rnd 30) = 30"
proof -
  have p: "Sent [(''type'', JStr ''PING'')] \<in>
     set (fst (snd (snd (handle_ping ex_constants 0 0 (\<lambda>m. True) ex_rnd ex_dirty))))"
    by (simp add: handle_ping_def send_ping ex_dirty_def ex_ws_def Websocket_init_def)
  have h: "handle_topics ''token'' (\<lambda>m. True) ex_rnd ex_dirty =
     (None,
      ex_dirty\<lparr>topics_changed := False, submitted := [WebsocketTopic ''A'']\<rparr>,
      [Sent (control_frame ''UNLISTEN'' [''B''] ''token'' (create_nonce ex_rnd 30)),
       Sent (control_frame ''LISTEN'' [''A''] ''token'' (create_nonce (drawn 30 ex_rnd) 30))],
      drawn 30 (drawn 30 ex_rnd))"
    by (simp add: handle_topics_def sync_removed_cases sync_added_cases ex_dirty_def ex_ws_def
        Websocket_init_def)
  show ?thesis
    using p h
      outbound_frames [of "[(''type'', JStr ''PING'')]" ex_constants 0 0 "\<lambda>m. True" ex_rnd
        ex_dirty "''token''"]
    by simp
qed

text \<open>
  C1, against the claim as stated: a pool that was never started holds \<open>A\<close> and \<open>B\<close> on
  two connections without a socket (limits: two connections of two topics). Adding \<open>C\<close>
  raises and leaves \<open>C\<close> unassigned, with three topics in all where four would fit: the
  first loop of \<^verbatim>\<open>add_topics\<close> passes over connections that are not connected.
\<close>

theorem pool_assignment_counterexample:
  "existing_topics (websockets ex_idle_pool) = [WebsocketTopic ''A'', WebsocketTopic ''B''] \<and>
   card (set (existing_topics (websockets ex_idle_pool)) \<union> set [WebsocketTopic ''C''])
     \<le> MAX_WEBSOCKETS ex_constants * WS_TOPICS_LIMIT ex_constants \<and>
   WebsocketPool_add_topics ex_constants ex_clock ex_idle_pool [WebsocketTopic ''C''] =
     (Some MinerException, ex_idle_pool) \<and>
   assigned_at ex_idle_pool (WebsocketTopic ''C'') = []"
  by (simp add: ex_idle_pool_eq WebsocketPool_add_topics_def existing_topics_def
      Websocket_init_def ex_constants_def assigned_at_def keys_def upt_rec)

text \<open>
  C1, amended: after every sequence of pool operations no topic key is assigned to two
  connections, before and after a further \<^verbatim>\<open>add_topics\<close>. When that call returns without
  raising, every topic passed to it is assigned to exactly one connection; and it does
  not raise when every connection of the pool is connected and the topics assigned and
  passed are no more than \<open>MAX_WEBSOCKETS * WS_TOPICS_LIMIT\<close> in all.
\<close>

theorem pool_assignment:
  "no_shared_key (pool (run c clock evs)) \<and>
   (WebsocketPool_add_topics c clock (pool (run c clock evs)) ts = (e, p') \<longrightarrow>
      no_shared_key p' \<and>
      (e = None \<longrightarrow> (\<forall>t \<in> set ts. length (assigned_at p' t) = 1)) \<and>
      ((\<forall>w \<in> set (websockets (pool (run c clock evs))). ws w) \<and>
       card (set (existing_topics (websockets (pool (run c clock evs)))) \<union> set ts)
         \<le> MAX_WEBSOCKETS c * WS_TOPICS_LIMIT c \<longrightarrow> e = None))"
proof -
  let ?p = "pool (run c clock evs)"
  have inv: "pool_inv c ?p" by (rule run_inv)
  have 1: "no_shared_key ?p" using inv by (rule pool_inv_no_shared_key)
  have 2: "no_shared_key p' \<and>
      (e = None \<longrightarrow> (\<forall>t \<in> set ts. length (assigned_at p' t) = 1)) \<and>
      ((\<forall>w \<in> set (websockets ?p). ws w) \<and>
       card (set (existing_topics (websockets ?p)) \<union> set ts)
         \<le> MAX_WEBSOCKETS c * WS_TOPICS_LIMIT c \<longrightarrow> e = None)"
    if add: "WebsocketPool_add_topics c clock ?p ts = (e, p')"
  proof -
    have inv': "pool_inv c p'" using pool_add_props [OF inv add] by blast
    have a: "no_shared_key p'" using inv' by (rule pool_inv_no_shared_key)
    have b: "\<forall>t \<in> set ts. length (assigned_at p' t) = 1" if "e = None"
      using pool_add_assigned(3) [OF inv add that] assigned_once [OF inv'] by auto
    have c: "e = None" if "\<forall>w \<in> set (websockets ?p). ws w"
      "card (set (existing_topics (websockets ?p)) \<union> set ts) \<le> MAX_WEBSOCKETS c * WS_TOPICS_LIMIT c"
      using inv add that by (rule pool_add_connected)
    from a b c show ?thesis by blast
  qed
  from 1 2 show ?thesis by blast
qed

theorem pool_assignment_witness:
  "list_all ws (websockets ex_live_pool) \<and>
   card (set (existing_topics (websockets ex_live_pool)) \<union>
         set [WebsocketTopic ''B'', WebsocketTopic ''C''])
     \<le> MAX_WEBSOCKETS ex_constants * WS_TOPICS_LIMIT ex_constants \<and>
   fst (WebsocketPool_add_topics ex_constants ex_clock ex_live_pool
          [WebsocketTopic ''B'', WebsocketTopic ''C'']) = None \<and>
   map (\<lambda>w. map fst (topics w))
     (websockets (snd (WebsocketPool_add_topics ex_constants ex_clock ex_live_pool
          [WebsocketTopic ''B'', WebsocketTopic ''C'']))) = [[''A'', ''B''], [''C'']] \<and>
   no_shared_key (snd (WebsocketPool_add_topics ex_constants ex_clock ex_live_pool
          [WebsocketTopic ''B'', WebsocketTopic ''C''])) \<and>
   length (assigned_at (snd (WebsocketPool_add_topics ex_constants ex_clock ex_live_pool
          [WebsocketTopic ''B'', WebsocketTopic ''C''])) (WebsocketTopic ''C'')) = 1"
proof -
  let ?ts = "[WebsocketTopic ''B'', WebsocketTopic ''C'']"
  let ?r = "WebsocketPool_add_topics ex_constants ex_clock ex_live_pool ?ts"
  have l: "\<forall>w \<in> set (websockets ex_live_pool). ws w"
    by (simp add: ex_live_pool_eq)
  have c: "card (set (existing_topics (websockets ex_live_pool)) \<union> set ?ts)
     \<le> MAX_WEBSOCKETS ex_constants * WS_TOPICS_LIMIT ex_constants"
    by (simp add: ex_live_pool_eq existing_topics_def ex_constants_def Websocket_init_def)
  have k: "map (\<lambda>w. map fst (topics w)) (websockets (snd ?r)) = [[''A'', ''B''], [''C'']]"
    by (simp add: ex_live_pool_eq WebsocketPool_add_topics_def existing_topics_def
        Websocket_add_topics_def Websocket_init_def ex_constants_def upt_rec start_nowait_def)
  have r: "?r = (fst ?r, snd ?r)" by simp
  show ?thesis
    using l c k
      pool_assignment [of ex_constants ex_clock
        "[Start, Add [WebsocketTopic ''A''], Connected 0]" ?ts "fst ?r" "snd ?r"]
    unfolding ex_live_pool_def [symmetric]
    by (simp add: list_all_iff)
qed

text \<open>
  C5: when \<^verbatim>\<open>add_topics\<close> of the pool is called with more distinct topics than
  \<open>MAX_WEBSOCKETS * WS_TOPICS_LIMIT\<close>, it raises \<^verbatim>\<open>MinerException\<close>; the pool it leaves
  behind still holds every topic it held before, holds nothing but those and topics of the
  call, has \<open>MAX_WEBSOCKETS\<close> connections and at most \<open>MAX_WEBSOCKETS * WS_TOPICS_LIMIT\<close>
  topics (exactly that many when every connection it had was connected). With a limit of 50,
  at most 20 connections and 1001 distinct topics added to a fresh pool, the call raises and
  exactly 1000 topics are placed on 20 connections.
\<close>

theorem capacity_exceeded:
  "(MAX_WEBSOCKETS c * WS_TOPICS_LIMIT c < card (set ts) \<and>
    WebsocketPool_add_topics c clock (pool (run c clock evs)) ts = (e, p') \<longrightarrow>
      e = Some MinerException \<and>
      set (existing_topics (websockets (pool (run c clock evs))))
        \<subseteq> set (existing_topics (websockets p')) \<and>
      set (existing_topics (websockets p'))
        \<subseteq> set (existing_topics (websockets (pool (run c clock evs)))) \<union> set ts \<and>
      total_topics p' \<le> MAX_WEBSOCKETS c * WS_TOPICS_LIMIT c \<and>
      length (websockets p') = MAX_WEBSOCKETS c \<and>
      (list_all ws (websockets (pool (run c clock evs))) \<longrightarrow>
         total_topics p' = MAX_WEBSOCKETS c * WS_TOPICS_LIMIT c)) \<and>
   (MAX_WEBSOCKETS c = 20 \<and> WS_TOPICS_LIMIT c = 50 \<and> distinct ts \<and> length ts = 1001 \<longrightarrow>
      fst (WebsocketPool_add_topics c clock WebsocketPool_init ts) = Some MinerException \<and>
      total_topics (snd (WebsocketPool_add_topics c clock WebsocketPool_init ts)) = 1000 \<and>
      length (websockets (snd (WebsocketPool_add_topics c clock WebsocketPool_init ts))) = 20)"
proof -
  let ?p = "pool (run c clock evs)"
  have inv: "pool_inv c ?p" by (rule run_inv)
  have 1: "e = Some MinerException \<and>
      set (existing_topics (websockets ?p)) \<subseteq> set (existing_topics (websockets p')) \<and>
      set (existing_topics (websockets p')) \<subseteq> set (existing_topics (websockets ?p)) \<union> set ts \<and>
      total_topics p' \<le> MAX_WEBSOCKETS c * WS_TOPICS_LIMIT c \<and>
      length (websockets p') = MAX_WEBSOCKETS c \<and>
      (list_all ws (websockets ?p) \<longrightarrow>
         total_topics p' = MAX_WEBSOCKETS c * WS_TOPICS_LIMIT c)"
    if big: "MAX_WEBSOCKETS c * WS_TOPICS_LIMIT c < card (set ts)"
      and add: "WebsocketPool_add_topics c clock ?p ts = (e, p')"
  proof -
    note P = pool_add_props [OF inv add]
    have e: "e = Some MinerException" using inv add big by (rule pool_add_overflow)
    have a: "total_topics p' \<le> MAX_WEBSOCKETS c * WS_TOPICS_LIMIT c"
      using P by (intro pool_inv_total) blast
    have b: "length (websockets p') = MAX_WEBSOCKETS c" using P e by simp
    have d: "total_topics p' = MAX_WEBSOCKETS c * WS_TOPICS_LIMIT c"
      if "list_all ws (websockets ?p)"
      using inv add _ that [unfolded list_all_iff] by (rule pool_add_full) (simp add: e)
    from e a b d pool_add_assigned(1,2) [OF inv add] show ?thesis by blast
  qed
  have 2: "fst (WebsocketPool_add_topics c clock WebsocketPool_init ts) = Some MinerException \<and>
      total_topics (snd (WebsocketPool_add_topics c clock WebsocketPool_init ts)) = 1000 \<and>
      length (websockets (snd (WebsocketPool_add_topics c clock WebsocketPool_init ts))) = 20"
    if c: "MAX_WEBSOCKETS c = 20" "WS_TOPICS_LIMIT c = 50" and ts: "distinct ts" "length ts = 1001"
  proof -
    let ?r = "WebsocketPool_add_topics c clock WebsocketPool_init ts"
    have add: "?r = (fst ?r, snd ?r)" by simp
    have "card (set ts) = 1001" using ts by (simp add: distinct_card)
    then have big: "MAX_WEBSOCKETS c * WS_TOPICS_LIMIT c < card (set ts)" using c by simp
    have e: "fst ?r = Some MinerException" using init_inv add big by (rule pool_add_overflow)
    then have ne: "fst ?r \<noteq> None" by simp
    have "total_topics (snd ?r) = MAX_WEBSOCKETS c * WS_TOPICS_LIMIT c"
      using add ne by (rule pool_add_init_full)
    then have t: "total_topics (snd ?r) = 1000" using c by simp
    have "length (websockets (snd ?r)) = MAX_WEBSOCKETS c"
      using pool_add_props [OF init_inv add] ne by blast
    then show ?thesis using e t c by simp
  qed
  from 1 2 show ?thesis by blast
qed

theorem capacity_exceeded_witness:
  "MAX_WEBSOCKETS ex_small * WS_TOPICS_LIMIT ex_small
     < card (set [WebsocketTopic ''A'', WebsocketTopic ''B'', WebsocketTopic ''C'']) \<and>
   fst (WebsocketPool_add_topics ex_small ex_clock (pool (run ex_small ex_clock []))
          [WebsocketTopic ''A'', WebsocketTopic ''B'', WebsocketTopic ''C'']) = Some MinerException \<and>
   map (\<lambda>w. map fst (topics w))
     (websockets (snd (WebsocketPool_add_topics ex_small ex_clock (pool (run ex_small ex_clock []))
          [WebsocketTopic ''A'', WebsocketTopic ''B'', WebsocketTopic ''C'']))) = [[''A'', ''B'']] \<and>
   total_topics (snd (WebsocketPool_add_topics ex_small ex_clock (pool (run ex_small ex_clock []))
          [WebsocketTopic ''A'', WebsocketTopic ''B'', WebsocketTopic ''C''])) = 2"
proof -
  let ?ts = "[WebsocketTopic ''A'', WebsocketTopic ''B'', WebsocketTopic ''C'']"
  let ?r = "WebsocketPool_add_topics ex_small ex_clock (pool (run ex_small ex_clock [])) ?ts"
  have big: "MAX_WEBSOCKETS ex_small * WS_TOPICS_LIMIT ex_small < card (set ?ts)"
    by (simp add: ex_small_def)
  have k: "map (\<lambda>w. map fst (topics w)) (websockets (snd ?r)) = [[''A'', ''B'']]"
    "total_topics (snd ?r) = 2"
    by (simp_all add: run_Nil WebsocketPool_init_def WebsocketPool_add_topics_def
        existing_topics_def Websocket_add_topics_def Websocket_init_def ex_small_def upt_rec
        total_topics_def)
  have r: "?r = (fst ?r, snd ?r)" by simp
  show ?thesis
    using big k r capacity_exceeded [of ex_small ?ts ex_clock "[]" "fst ?r" "snd ?r"]
    by simp
qed




end
